theory Spec2Isabelle
  imports Main "HOL-Library.AList" "HOL-Library.Sublist"
begin

section \<open>Python strings and paths\<close>

text \<open>
  Paths and module names are Python \<open>str\<close> values, modelled as \<open>string\<close>.
  The path separator \<open>os.sep\<close> is the POSIX one.
\<close>

definition os_sep :: char where
  "os_sep = CHR ''/''"

text \<open>\<open>s.endswith(suf)\<close>\<close>

definition endswith :: "string \<Rightarrow> string \<Rightarrow> bool" where
  "endswith s suf = (drop (length s - length suf) s = suf)"

text \<open>\<open>s.replace(old, new)\<close> for one-character \<open>old\<close> and \<open>new\<close>.\<close>

definition replace_char :: "char \<Rightarrow> char \<Rightarrow> string \<Rightarrow> string" where
  "replace_char old new s = map (\<lambda>c. if c = old then new else c) s"

text \<open>
  \<open>s.rstrip(chars)\<close>: Python removes from the right end every character that occurs
  in \<open>chars\<close>, which is a set of characters and not a suffix.
\<close>

definition rstrip :: "string \<Rightarrow> string \<Rightarrow> string" where
  "rstrip s chars = rev (dropWhile (\<lambda>c. c \<in> set chars) (rev s))"

text \<open>\<open>p in s\<close> on strings: \<open>p\<close> occurs in \<open>s\<close> as a contiguous substring.\<close>

fun str_contains :: "string \<Rightarrow> string \<Rightarrow> bool" where
  "str_contains p [] = (p = [])"
| "str_contains p (c # cs) = (take (length p) (c # cs) = p \<or> str_contains p cs)"

text \<open>
  \<open>Path.parts\<close>: the components of a path, the root \<open>/\<close> first when the path is
  absolute. \<open>split_sep\<close> cuts a string at every separator.
\<close>

fun split_sep :: "string \<Rightarrow> string list" where
  "split_sep [] = [[]]"
| "split_sep (c # cs) =
     (if c = os_sep then [] # split_sep cs
      else (case split_sep cs of
              w # ws \<Rightarrow> (c # w) # ws
            | [] \<Rightarrow> [[c]]))"

definition parts :: "string \<Rightarrow> string list" where
  "parts p = (if take 1 p = [os_sep] then [[os_sep]] else []) @ filter (\<lambda>w. w \<noteq> []) (split_sep p)"

text \<open>\<open>project_dir / rel\<close> for an absolute directory and a relative path.\<close>

definition join_path :: "string \<Rightarrow> string \<Rightarrow> string" where
  "join_path d rel = (if d = [os_sep] then d @ rel else d @ [os_sep] @ rel)"

section \<open>Pipeline 2: dependency graph and affected-set resolution\<close>

text \<open>
  A Python \<open>set\<close> is modelled as a duplicate-free list in insertion order, and
  \<open>s.add(x)\<close> as \<open>set_add\<close>. Python leaves the iteration order of a set open; the
  order of the list stands for it, and the results below are stated on \<open>set\<close> of the
  lists.
\<close>

definition set_add :: "'a \<Rightarrow> 'a list \<Rightarrow> 'a list" where
  "set_add x s = (if x \<in> set s then s else s @ [x])"

text \<open>
  The module id of a file, as both \<open>build_dependency_graph\<close> and
  \<open>resolve_affected\<close> compute it:
  \<^verbatim>\<open>f.replace(os.sep, '.').rstrip('.py')\<close>
\<close>

definition module_of :: "string \<Rightarrow> string" where
  "module_of f = rstrip (replace_char os_sep CHR ''.'' f) ''.py''"

text \<open>
  The id the specification asks for: separators replaced, and the source suffix removed
  as a suffix (three characters of a path that ends in \<open>.py\<close>).
\<close>

definition spec_artifact_id :: "string \<Rightarrow> string" where
  "spec_artifact_id f =
     replace_char os_sep CHR ''.'' (if endswith f ''.py'' then take (length f - 3) f else f)"

text \<open>
  \<open>dep_graph\<close> and \<open>import_map\<close> are \<open>defaultdict(set)\<close>: association lists from a
  module to a set of modules. \<open>d[k].add(v)\<close> creates the entry when it is missing.
\<close>

type_synonym graph = "(string \<times> string list) list"

definition dict_add :: "'k \<Rightarrow> 'v \<Rightarrow> ('k \<times> 'v list) list \<Rightarrow> ('k \<times> 'v list) list" where
  "dict_add k v d =
     AList.update k (set_add v (case map_of d k of None \<Rightarrow> [] | Some vs \<Rightarrow> vs)) d"

text \<open>
  \<open>build_dependency_graph\<close>. The tree is the list of Python files under the
  repository, each with its path relative to the repository and its text;
  \<open>scan\<close> is the regular expression search for import statements, which yields
  the imported module names of a text in the order of the matches. The source skips a
  file whose text cannot be read; such files are not in the list.
\<close>

fun add_imports :: "string \<Rightarrow> string list \<Rightarrow> graph \<times> graph \<Rightarrow> graph \<times> graph" where
  "add_imports module [] (import_map, dep_graph) = (import_map, dep_graph)"
| "add_imports module (imported # ms) (import_map, dep_graph) =
     add_imports module ms (dict_add module imported import_map, dict_add imported module dep_graph)"

fun build_loop :: "(string \<Rightarrow> string list) \<Rightarrow> (string \<times> string) list \<Rightarrow> graph \<times> graph \<Rightarrow> graph \<times> graph" where
  "build_loop scan [] acc = acc"
| "build_loop scan ((rel, source) # py_files) acc =
     build_loop scan py_files (add_imports (module_of rel) (scan source) acc)"

definition build_dependency_graph :: "(string \<Rightarrow> string list) \<Rightarrow> (string \<times> string) list \<Rightarrow> graph" where
  "build_dependency_graph scan py_files = snd (build_loop scan py_files ([], []))"

text \<open>\<open>self.dep_graph.get(current, set())\<close>\<close>

definition dependents :: "('a \<times> 'a list) list \<Rightarrow> 'a \<Rightarrow> 'a list" where
  "dependents dep_graph current = (case map_of dep_graph current of None \<Rightarrow> [] | Some ds \<Rightarrow> ds)"

text \<open>The first loop of \<open>resolve_affected\<close>: the changed modules of the changed files.\<close>

fun changed_modules_loop :: "string list \<Rightarrow> string list \<Rightarrow> string list" where
  "changed_modules_loop [] changed_modules = changed_modules"
| "changed_modules_loop (f # fs) changed_modules =
     changed_modules_loop fs
       (if endswith f ''.py'' then set_add (module_of f) changed_modules else changed_modules)"

definition changed_modules :: "string list \<Rightarrow> string list" where
  "changed_modules changed_files = changed_modules_loop changed_files []"

text \<open>
  The \<open>for dependent in ...\<close> loop: every dependent that is not yet affected is added to
  \<open>affected\<close> and appended to the queue.
\<close>

fun expand :: "'a list \<Rightarrow> 'a list \<times> 'a list \<Rightarrow> 'a list \<times> 'a list" where
  "expand [] (affected, queue) = (affected, queue)"
| "expand (dependent # ds) (affected, queue) =
     (if dependent \<notin> set affected
      then expand ds (affected @ [dependent], queue @ [dependent])
      else expand ds (affected, queue))"

text \<open>
  The \<open>while queue:\<close> loop on the state \<open>(affected, queue, visited, dequeued)\<close>.
  The first three are the variables of the source. \<open>dequeued\<close> is a log that the source
  does not keep: it records the result of every \<open>queue.pop(0)\<close>, in order, so that
  statements about how often a node is dequeued can be made.
\<close>

function bfs_loop ::
  "('a \<times> 'a list) list \<Rightarrow> 'a list \<times> 'a list \<times> 'a list \<times> 'a list
     \<Rightarrow> 'a list \<times> 'a list \<times> 'a list \<times> 'a list" where
  "bfs_loop dep_graph (affected, [], visited, dequeued) = (affected, [], visited, dequeued)"
| "bfs_loop dep_graph (affected, current # queue, visited, dequeued) =
     (if current \<in> set visited
      then bfs_loop dep_graph (affected, queue, visited, dequeued @ [current])
      else (case expand (dependents dep_graph current) (affected, queue) of
              (affected', queue') \<Rightarrow>
                bfs_loop dep_graph (affected', queue', visited @ [current], dequeued @ [current])))"
  by pat_completeness auto

text \<open>
  Lines 75 to 89 of \<open>resolve_affected\<close>: \<open>affected\<close> and the queue start from the changed
  modules, \<open>visited\<close> starts empty, and the loop runs until the queue is empty.
\<close>

definition resolve_from :: "('a \<times> 'a list) list \<Rightarrow> 'a list \<Rightarrow> 'a list \<times> 'a list \<times> 'a list \<times> 'a list" where
  "resolve_from dep_graph changed = bfs_loop dep_graph (changed, changed, [], [])"

definition resolve_affected :: "graph \<Rightarrow> string list \<Rightarrow> string list" where
  "resolve_affected dep_graph changed_files = fst (resolve_from dep_graph (changed_modules changed_files))"

section \<open>Pipeline 6: the full-stack run\<close>

record config =
  extensions :: "string list"
  ignore_patterns :: "string list"
  output_format :: string

definition DEFAULT_CONFIG :: config where
  "DEFAULT_CONFIG =
     \<lparr>extensions = [''.py'', ''.js'', ''.ts'', ''.jsx'', ''.tsx'', ''.md''],
      ignore_patterns = [''.git'', ''node_modules'', ''__pycache__'', ''.venv'', ''venv''],
      output_format = ''html''\<rparr>"

text \<open>
  \<open>_should_skip\<close>: \<^verbatim>\<open>any(p in rel for p in self.config['ignore_patterns'])\<close>
  where \<open>rel\<close> is \<open>str(filepath)\<close>, the full path of the file as a string.
\<close>

definition should_skip :: "config \<Rightarrow> string \<Rightarrow> bool" where
  "should_skip cfg filepath = list_ex (\<lambda>p. str_contains p filepath) (ignore_patterns cfg)"

text \<open>
  The test the specification describes, which is also the one of pipelines 3 and 5
  (\<^verbatim>\<open>any(d in filepath.parts for d in IGNORE_DIRS)\<close>): a pattern matches when it is
  one of the components of the path.
\<close>

definition component_skip :: "config \<Rightarrow> string \<Rightarrow> bool" where
  "component_skip cfg filepath = list_ex (\<lambda>d. d \<in> set (parts filepath)) (ignore_patterns cfg)"

text \<open>
  The fingerprint store is the file \<open>.doc-cache.json\<close> of the output directory. It is
  missing, or holds a text that \<open>json.loads\<close> rejects, or holds a text that
  \<open>json.loads\<close> reads as a dictionary from paths to hashes, which is what the pipeline
  writes. Other JSON documents are modelled in the section on arbitrary trees.
\<close>

datatype error =
    JSONDecodeError | AttributeError | IsADirectoryError string | FileNotFoundError string
  | UnicodeEncodeError | OSError string

datatype cache_doc = Missing | Unparseable | Stored "(string \<times> string) list"

text \<open>
  The pipeline object and the output directory: the store, the files written below
  \<open>site/\<close> by this run, and \<open>self.report\<close>. A stage record is the name of the stage
  and its counters; times are not modelled.
\<close>

type_synonym stage = "string \<times> (string \<times> nat) list"

record pipeline =
  cache_file :: cache_doc
  site_written :: "string list"
  report_stages :: "stage list"
  report_errors :: "string list"
  report_stats :: "(string \<times> nat) list"

definition init_pipeline :: "cache_doc \<Rightarrow> pipeline" where
  "init_pipeline doc =
     \<lparr>cache_file = doc, site_written = [], report_stages = [], report_errors = [],
      report_stats = []\<rparr>"

text \<open>
  The project tree is the list of the regular files below \<open>project_dir\<close>, each with its
  path relative to \<open>project_dir\<close> and its content, in the order of the directory walk.
  \<^verbatim>\<open>project_dir.rglob('*' + ext)\<close> yields the files whose name ends in \<open>ext\<close>; an extension
  holds no separator, so these are the files whose path ends in \<open>ext\<close>.
  This section takes every path of the walk to be a regular file that can be read and
  every write to succeed; directories, dangling links and failing writes are modelled in
  the section on arbitrary trees.
\<close>

type_synonym tree = "(string \<times> string) list"

definition rglob :: "tree \<Rightarrow> string \<Rightarrow> tree" where
  "rglob tree ext = filter (\<lambda>(rel, bytes). endswith rel ext) tree"

text \<open>Lines 56 to 58: the old cache is empty unless the file exists, and then it is parsed.\<close>

definition load_cache :: "cache_doc \<Rightarrow> error + (string \<times> string) list" where
  "load_cache doc =
     (case doc of
        Missing \<Rightarrow> Inr []
      | Unparseable \<Rightarrow> Inl JSONDecodeError
      | Stored old_cache \<Rightarrow> Inr old_cache)"

text \<open>
  The two nested loops of \<open>stage_change_detection\<close>; \<open>md5\<close> is
  \<^verbatim>\<open>hashlib.md5(bytes).hexdigest()\<close>. Dictionaries are association lists and
  \<open>d[k] = v\<close> is \<open>AList.update\<close>, which keeps the place of a key that is present.
\<close>

fun detect_files ::
  "(string \<Rightarrow> string) \<Rightarrow> config \<Rightarrow> string \<Rightarrow> (string \<times> string) list \<Rightarrow> tree
     \<Rightarrow> (string \<times> string) list \<times> string list \<Rightarrow> (string \<times> string) list \<times> string list" where
  "detect_files md5 cfg project_dir old_cache [] (new_cache, changed_files) =
     (new_cache, changed_files)"
| "detect_files md5 cfg project_dir old_cache ((rel, bytes) # files) (new_cache, changed_files) =
     (if should_skip cfg (join_path project_dir rel)
      then detect_files md5 cfg project_dir old_cache files (new_cache, changed_files)
      else detect_files md5 cfg project_dir old_cache files
             (AList.update rel (md5 bytes) new_cache,
              if map_of old_cache rel \<noteq> Some (md5 bytes) then changed_files @ [rel]
              else changed_files))"

fun detect_exts ::
  "(string \<Rightarrow> string) \<Rightarrow> config \<Rightarrow> string \<Rightarrow> tree \<Rightarrow> (string \<times> string) list \<Rightarrow> string list
     \<Rightarrow> (string \<times> string) list \<times> string list \<Rightarrow> (string \<times> string) list \<times> string list" where
  "detect_exts md5 cfg project_dir tree old_cache [] acc = acc"
| "detect_exts md5 cfg project_dir tree old_cache (ext # exts) acc =
     detect_exts md5 cfg project_dir tree old_cache exts
       (detect_files md5 cfg project_dir old_cache (rglob tree ext) acc)"

definition stage_change_detection ::
  "(string \<Rightarrow> string) \<Rightarrow> config \<Rightarrow> string \<Rightarrow> tree \<Rightarrow> pipeline \<Rightarrow> error + (string list \<times> pipeline)" where
  "stage_change_detection md5 cfg project_dir tree p =
     (case load_cache (cache_file p) of
        Inl e \<Rightarrow> Inl e
      | Inr old_cache \<Rightarrow>
          (case detect_exts md5 cfg project_dir tree old_cache (extensions cfg) ([], []) of
             (new_cache, changed_files) \<Rightarrow>
               Inr (changed_files,
                    p\<lparr>cache_file := Stored new_cache,
                      report_stages := report_stages p @
                        [(''change_detection'',
                          [(''changed_files'', length changed_files),
                           (''total_files'', length new_cache)])]\<rparr>)))"

text \<open>
  \<open>stage_code_analysis\<close>. Lines 89 to 91 choose the files: all Python files of the tree,
  or, when \<open>files_to_analyze\<close> is a non-empty list, its entries that end in \<open>.py\<close>.
\<close>

definition select_py_files :: "tree \<Rightarrow> string list option \<Rightarrow> string list" where
  "select_py_files tree files_to_analyze =
     (case files_to_analyze of
        None \<Rightarrow> map fst (rglob tree ''.py'')
      | Some fs \<Rightarrow>
          if fs \<noteq> [] then filter (\<lambda>f. endswith f ''.py'') fs
          else map fst (rglob tree ''.py''))"

definition parse_error :: "string \<Rightarrow> string \<Rightarrow> string" where
  "parse_error rel e = ''Parse error in '' @ rel @ '': '' @ e"

text \<open>
  The loop over the chosen files. \<open>parse\<close> stands for the body of the \<open>try\<close> block
  (reading the text, \<open>ast.parse\<close> and the walk over the tree): it yields the items of
  the file, or the message of the exception it raised.
\<close>

fun analyze_files ::
  "(string \<Rightarrow> string + 'i) \<Rightarrow> config \<Rightarrow> string \<Rightarrow> tree \<Rightarrow> string list
     \<Rightarrow> (string \<times> 'i) list \<times> string list \<Rightarrow> (string \<times> 'i) list \<times> string list" where
  "analyze_files parse cfg project_dir tree [] (analysis, errors) = (analysis, errors)"
| "analyze_files parse cfg project_dir tree (rel # py_files) (analysis, errors) =
     (case map_of tree rel of
        None \<Rightarrow> analyze_files parse cfg project_dir tree py_files (analysis, errors)
      | Some source \<Rightarrow>
          if should_skip cfg (join_path project_dir rel)
          then analyze_files parse cfg project_dir tree py_files (analysis, errors)
          else (case parse source of
                  Inr items \<Rightarrow>
                    analyze_files parse cfg project_dir tree py_files
                      (AList.update rel items analysis, errors)
                | Inl e \<Rightarrow>
                    analyze_files parse cfg project_dir tree py_files
                      (analysis, errors @ [parse_error rel e])))"

definition stage_code_analysis ::
  "(string \<Rightarrow> string + 'i) \<Rightarrow> config \<Rightarrow> string \<Rightarrow> tree \<Rightarrow> string list option \<Rightarrow> pipeline
     \<Rightarrow> (string \<times> 'i) list \<times> pipeline" where
  "stage_code_analysis parse cfg project_dir tree files_to_analyze p =
     (case analyze_files parse cfg project_dir tree (select_py_files tree files_to_analyze)
             ([], report_errors p) of
        (analysis, errors) \<Rightarrow>
          (analysis,
           p\<lparr>report_errors := errors,
             report_stages := report_stages p @
               [(''code_analysis'', [(''analyzed_files'', length analysis)])]\<rparr>))"

text \<open>
  \<open>stage_site_generation\<close> writes the style sheet, the index page and one page for
  each analysed file; the content of the pages is not modelled.
\<close>

definition page_name :: "string \<Rightarrow> string" where
  "page_name fp = replace_char CHR ''.'' CHR ''_'' (replace_char os_sep CHR ''_'' fp) @ ''.html''"

definition stage_site_generation :: "(string \<times> 'i) list \<Rightarrow> pipeline \<Rightarrow> nat \<times> pipeline" where
  "stage_site_generation analysis p =
     (1 + length analysis,
      p\<lparr>site_written := site_written p @ [''style.css'', ''index.html''] @
                           map (\<lambda>(fp, items). page_name fp) analysis,
        report_stages := report_stages p @
          [(''site_generation'', [(''pages'', 1 + length analysis)])]\<rparr>)"

text \<open>
  \<open>run\<close>, from a fresh pipeline object on an output directory whose store is \<open>doc\<close>.
  The source returns nothing; the model returns \<open>changed\<close> and \<open>analysis\<close> with the final
  state. \<open>stage_rag_indexing\<close> and \<open>stage_living_docs\<close> read the analysis and the tree,
  write the search index and add one stage record each; they touch neither the store, the
  analysis, the error list nor the site, and are left out, with the \<open>search_chunks\<close>
  entry of the final statistics They are part of \<open>run_io\<close> below.
\<close>

definition run ::
  "(string \<Rightarrow> string) \<Rightarrow> (string \<Rightarrow> string + 'i) \<Rightarrow> config \<Rightarrow> string \<Rightarrow> tree \<Rightarrow> cache_doc
     \<Rightarrow> error + (string list \<times> (string \<times> 'i) list \<times> pipeline)" where
  "run md5 parse cfg project_dir tree doc =
     (case stage_change_detection md5 cfg project_dir tree (init_pipeline doc) of
        Inl e \<Rightarrow> Inl e
      | Inr (changed, p1) \<Rightarrow>
          (case stage_code_analysis parse cfg project_dir tree
                  (if changed \<noteq> [] then Some changed else None) p1 of
             (analysis, p2) \<Rightarrow>
               (case stage_site_generation analysis p2 of
                  (pages, p3) \<Rightarrow>
                    Inr (changed, analysis,
                         p3\<lparr>report_stats :=
                              [(''files_analyzed'', length analysis),
                               (''pages_generated'', pages),
                               (''errors'', length (report_errors p3))]\<rparr>))))"

section \<open>Pipeline 6 on an arbitrary tree\<close>

text \<open>
  The definitions of the previous section describe a run under three assumptions: every
  path that the walk finds is a regular file that can be read, the store is missing,
  unparseable or a dictionary, and every write succeeds. This section drops them and
  models all five stages; \<open>run_io_regular\<close> below shows that the two models agree where
  the assumptions hold.

  A path below \<open>project_dir\<close> is a regular file, a directory, or a symbolic link whose
  target is missing. \<open>rglob\<close> yields all three kinds; \<open>read_bytes\<close> and \<open>read_text\<close>
  raise on the last two, and \<open>exists\<close> is false of the last.
\<close>

datatype node = File string | Directory | Dangling

type_synonym entries = "(string \<times> node) list"

text \<open>
  The store document: missing, a text that \<open>json.loads\<close> rejects, a dictionary from paths
  to hashes, or any other JSON value, on which \<open>old_cache.get\<close> raises
  \<open>AttributeError\<close>. An entry of a dictionary whose value is not a string differs from
  every hash, as an entry with another hash does.
\<close>

datatype document = NoFile | BadJson | JsonDict "(string \<times> string) list" | JsonOther

text \<open>The items that the analysis extracts from one file.\<close>

record func_item =
  func_name :: string
  func_args :: "string list"
  func_doc :: string
  func_line :: nat

record class_item =
  class_name :: string
  class_doc :: string
  class_methods :: "string list"
  class_line :: nat

record items =
  item_module_doc :: string
  item_functions :: "func_item list"
  item_classes :: "class_item list"
  item_lines :: nat

text \<open>
  The output directory and the pipeline object: the store, the files written below
  \<open>site/\<close> by this run, whether \<open>pipeline-report.json\<close> has been written, and
  \<open>self.report\<close>.
\<close>

record world =
  doc_cache :: document
  site_pages :: "string list"
  report_file :: bool
  rep_stages :: "stage list"
  rep_errors :: "string list"
  rep_stats :: "(string \<times> nat) list"

definition init_world :: "document \<Rightarrow> world" where
  "init_world doc =
     \<lparr>doc_cache = doc, site_pages = [], report_file = False, rep_stages = [],
      rep_errors = [], rep_stats = []\<rparr>"

text \<open>\<open>s.startswith(pre)\<close>, \<open>Path.name\<close>, \<open>Path.exists\<close> and \<open>Path.read_bytes\<close>; \<open>read_text\<close> raises as \<open>read_bytes\<close> does.\<close>

definition startswith :: "string \<Rightarrow> string \<Rightarrow> bool" where
  "startswith s pre = (take (length pre) s = pre)"

definition basename :: "string \<Rightarrow> string" where
  "basename p = rev (takeWhile (\<lambda>c. c \<noteq> os_sep) (rev p))"

definition path_exists :: "node \<Rightarrow> bool" where
  "path_exists n = (case n of File bytes \<Rightarrow> True | Directory \<Rightarrow> True | Dangling \<Rightarrow> False)"

definition read_bytes :: "string \<Rightarrow> node \<Rightarrow> error + string" where
  "read_bytes filepath n =
     (case n of
        File bytes \<Rightarrow> Inr bytes
      | Directory \<Rightarrow> Inl (IsADirectoryError filepath)
      | Dangling \<Rightarrow> Inl (FileNotFoundError filepath))"

text \<open>
  \<^verbatim>\<open>project_dir.rglob('*' + ext)\<close> on all entries, and lines 56 to 58: the value of
  \<open>old_cache\<close> is a dictionary, or \<open>None\<close> here when the document is another JSON
  value.
\<close>

definition rglob_io :: "entries \<Rightarrow> string \<Rightarrow> entries" where
  "rglob_io tree ext = filter (\<lambda>(rel, n). endswith rel ext) tree"

definition load_cache_io :: "document \<Rightarrow> error + (string \<times> string) list option" where
  "load_cache_io doc =
     (case doc of
        NoFile \<Rightarrow> Inr (Some [])
      | BadJson \<Rightarrow> Inl JSONDecodeError
      | JsonDict old_cache \<Rightarrow> Inr (Some old_cache)
      | JsonOther \<Rightarrow> Inr None)"

text \<open>
  The loops of \<open>stage_change_detection\<close>. Line 68 reads the bytes outside any \<open>try\<close>,
  before the hash is stored and before \<open>old_cache.get\<close> is called; the first exception
  ends the stage, and the store is written only after both loops.
\<close>

fun detect_files_io ::
  "(string \<Rightarrow> string) \<Rightarrow> config \<Rightarrow> string \<Rightarrow> (string \<times> string) list option \<Rightarrow> entries
     \<Rightarrow> (string \<times> string) list \<times> string list \<Rightarrow> error + (string \<times> string) list \<times> string list" where
  "detect_files_io md5 cfg project_dir old_cache [] (new_cache, changed_files) =
     Inr (new_cache, changed_files)"
| "detect_files_io md5 cfg project_dir old_cache ((rel, n) # files) (new_cache, changed_files) =
     (if should_skip cfg (join_path project_dir rel)
      then detect_files_io md5 cfg project_dir old_cache files (new_cache, changed_files)
      else (case read_bytes (join_path project_dir rel) n of
              Inl e \<Rightarrow> Inl e
            | Inr bytes \<Rightarrow>
                (case old_cache of
                   None \<Rightarrow> Inl AttributeError
                 | Some d \<Rightarrow>
                     detect_files_io md5 cfg project_dir old_cache files
                       (AList.update rel (md5 bytes) new_cache,
                        if map_of d rel \<noteq> Some (md5 bytes) then changed_files @ [rel]
                        else changed_files))))"

fun detect_exts_io ::
  "(string \<Rightarrow> string) \<Rightarrow> config \<Rightarrow> string \<Rightarrow> entries \<Rightarrow> (string \<times> string) list option
     \<Rightarrow> string list \<Rightarrow> (string \<times> string) list \<times> string list
     \<Rightarrow> error + (string \<times> string) list \<times> string list" where
  "detect_exts_io md5 cfg project_dir tree old_cache [] acc = Inr acc"
| "detect_exts_io md5 cfg project_dir tree old_cache (ext # exts) acc =
     (case detect_files_io md5 cfg project_dir old_cache (rglob_io tree ext) acc of
        Inl e \<Rightarrow> Inl e
      | Inr acc' \<Rightarrow> detect_exts_io md5 cfg project_dir tree old_cache exts acc')"

definition stage_change_detection_io ::
  "(string \<Rightarrow> string) \<Rightarrow> config \<Rightarrow> string \<Rightarrow> entries \<Rightarrow> world \<Rightarrow> (error + string list) \<times> world" where
  "stage_change_detection_io md5 cfg project_dir tree w =
     (case load_cache_io (doc_cache w) of
        Inl e \<Rightarrow> (Inl e, w)
      | Inr old_cache \<Rightarrow>
          (case detect_exts_io md5 cfg project_dir tree old_cache (extensions cfg) ([], []) of
             Inl e \<Rightarrow> (Inl e, w)
           | Inr (new_cache, changed_files) \<Rightarrow>
               (Inr changed_files,
                w\<lparr>doc_cache := JsonDict new_cache,
                  rep_stages := rep_stages w @
                    [(''change_detection'',
                      [(''changed_files'', length changed_files),
                       (''total_files'', length new_cache)])]\<rparr>)))"

text \<open>
  \<open>stage_code_analysis\<close>. The files are chosen as before; a path is passed over unless it
  exists and is not skipped. Reading the text is inside the \<open>try\<close>, so its exception is
  caught like one of the parser; \<open>str_exc\<close> is \<open>str(e)\<close> for these exceptions.
\<close>

definition select_py_files_io :: "entries \<Rightarrow> string list option \<Rightarrow> string list" where
  "select_py_files_io tree files_to_analyze =
     (case files_to_analyze of
        None \<Rightarrow> map fst (rglob_io tree ''.py'')
      | Some fs \<Rightarrow>
          if fs \<noteq> [] then filter (\<lambda>f. endswith f ''.py'') fs
          else map fst (rglob_io tree ''.py''))"

definition read_and_parse ::
  "(string \<Rightarrow> string + items) \<Rightarrow> (error \<Rightarrow> string) \<Rightarrow> string \<Rightarrow> node \<Rightarrow> string + items" where
  "read_and_parse parse str_exc filepath n =
     (case read_bytes filepath n of
        Inl e \<Rightarrow> Inl (str_exc e)
      | Inr bytes \<Rightarrow> parse bytes)"

fun analyze_files_io ::
  "(string \<Rightarrow> string + items) \<Rightarrow> (error \<Rightarrow> string) \<Rightarrow> config \<Rightarrow> string \<Rightarrow> entries \<Rightarrow> string list
     \<Rightarrow> (string \<times> items) list \<times> string list \<Rightarrow> (string \<times> items) list \<times> string list" where
  "analyze_files_io parse str_exc cfg project_dir tree [] (analysis, errors) = (analysis, errors)"
| "analyze_files_io parse str_exc cfg project_dir tree (rel # py_files) (analysis, errors) =
     (case map_of tree rel of
        None \<Rightarrow> analyze_files_io parse str_exc cfg project_dir tree py_files (analysis, errors)
      | Some n \<Rightarrow>
          if \<not> path_exists n \<or> should_skip cfg (join_path project_dir rel)
          then analyze_files_io parse str_exc cfg project_dir tree py_files (analysis, errors)
          else (case read_and_parse parse str_exc (join_path project_dir rel) n of
                  Inr its \<Rightarrow>
                    analyze_files_io parse str_exc cfg project_dir tree py_files
                      (AList.update rel its analysis, errors)
                | Inl e \<Rightarrow>
                    analyze_files_io parse str_exc cfg project_dir tree py_files
                      (analysis, errors @ [parse_error rel e])))"

definition stage_code_analysis_io ::
  "(string \<Rightarrow> string + items) \<Rightarrow> (error \<Rightarrow> string) \<Rightarrow> config \<Rightarrow> string \<Rightarrow> entries
     \<Rightarrow> string list option \<Rightarrow> world \<Rightarrow> (string \<times> items) list \<times> world" where
  "stage_code_analysis_io parse str_exc cfg project_dir tree files_to_analyze w =
     (case analyze_files_io parse str_exc cfg project_dir tree (select_py_files_io tree files_to_analyze)
             ([], rep_errors w) of
        (analysis, errors) \<Rightarrow>
          (analysis,
           w\<lparr>rep_errors := errors,
             rep_stages := rep_stages w @
               [(''code_analysis'',
                 [(''analyzed_files'', length analysis),
                  (''total_functions'', sum_list (map (\<lambda>(fp, a). length (item_functions a)) analysis)),
                  (''total_classes'', sum_list (map (\<lambda>(fp, a). length (item_classes a)) analysis))])]\<rparr>))"

text \<open>
  \<open>stage_rag_indexing\<close> makes one chunk for a module docstring that is not empty, one for
  each function and one for each class; only their number reaches the report.
\<close>

definition chunks_of :: "items \<Rightarrow> nat" where
  "chunks_of its =
     (if item_module_doc its \<noteq> [] then 1 else 0) + length (item_functions its) + length (item_classes its)"

definition stage_rag_indexing :: "(string \<times> items) list \<Rightarrow> world \<Rightarrow> nat \<times> world" where
  "stage_rag_indexing analysis w =
     (sum_list (map (\<lambda>(fp, its). chunks_of its) analysis),
      w\<lparr>rep_stages := rep_stages w @
          [(''rag_indexing'',
            [(''total_chunks'', sum_list (map (\<lambda>(fp, its). chunks_of its) analysis))])]\<rparr>)"

text \<open>
  \<open>stage_living_docs\<close>. \<open>name_glob tree pre suf\<close> are the entries whose name matches
  \<open>pre*suf\<close>. The features and the API specifications are only counted. Every test file
  that is not skipped is read, outside any \<open>try\<close>; \<open>count_tests\<close> is the number of
  matches of the regular expression for test functions in a text.
\<close>

fun count_tests_loop ::
  "(string \<Rightarrow> nat) \<Rightarrow> config \<Rightarrow> string \<Rightarrow> entries \<Rightarrow> nat \<Rightarrow> error + nat" where
  "count_tests_loop count_tests cfg project_dir [] tests = Inr tests"
| "count_tests_loop count_tests cfg project_dir ((rel, n) # test_files) tests =
     (if should_skip cfg (join_path project_dir rel)
      then count_tests_loop count_tests cfg project_dir test_files tests
      else (case read_bytes (join_path project_dir rel) n of
              Inl e \<Rightarrow> Inl e
            | Inr source \<Rightarrow>
                count_tests_loop count_tests cfg project_dir test_files (tests + count_tests source)))"

definition name_glob :: "entries \<Rightarrow> string \<Rightarrow> string \<Rightarrow> entries" where
  "name_glob tree pre suf =
     filter (\<lambda>(rel, n). startswith (basename rel) pre \<and> endswith (basename rel) suf
                        \<and> length pre + length suf \<le> length (basename rel)) tree"

definition stage_living_docs ::
  "(string \<Rightarrow> nat) \<Rightarrow> config \<Rightarrow> string \<Rightarrow> entries \<Rightarrow> world \<Rightarrow> (error + unit) \<times> world" where
  "stage_living_docs count_tests cfg project_dir tree w =
     (case count_tests_loop count_tests cfg project_dir
             (name_glob tree ''test_'' ''.py'' @ rglob_io tree ''_test.py'') 0 of
        Inl e \<Rightarrow> (Inl e, w)
      | Inr tests \<Rightarrow>
          (Inr (),
           w\<lparr>rep_stages := rep_stages w @
               [(''living_docs'',
                 [(''features'', length (rglob_io tree ''.feature'')),
                  (''api_specs'', length (name_glob tree ''openapi.'' [])
                                  + length (name_glob tree ''swagger.'' [])),
                  (''tests'', tests)])]\<rparr>))"

text \<open>
  \<open>stage_site_generation\<close>. The directory, the style sheet and the index page are taken
  to be writable. \<open>write_page fp items\<close> is the exception, if any, that writing the page
  of one file raises (a name that is too long, a text that cannot be encoded); it is
  outside any \<open>try\<close>, so it ends the stage, and the pages written before it stay.
\<close>

fun write_pages ::
  "(string \<Rightarrow> items \<Rightarrow> error option) \<Rightarrow> (string \<times> items) list \<Rightarrow> nat \<times> string list
     \<Rightarrow> error option \<times> nat \<times> string list" where
  "write_pages write_page [] (pages, site) = (None, pages, site)"
| "write_pages write_page ((fp, its) # analysis) (pages, site) =
     (case write_page fp its of
        Some e \<Rightarrow> (Some e, pages, site)
      | None \<Rightarrow> write_pages write_page analysis (pages + 1, site @ [page_name fp]))"

definition stage_site_generation_io ::
  "(string \<Rightarrow> items \<Rightarrow> error option) \<Rightarrow> (string \<times> items) list \<Rightarrow> world \<Rightarrow> (error + nat) \<times> world" where
  "stage_site_generation_io write_page analysis w =
     (case write_pages write_page analysis (1, site_pages w @ [''style.css'', ''index.html'']) of
        (Some e, pages, site) \<Rightarrow> (Inl e, w\<lparr>site_pages := site\<rparr>)
      | (None, pages, site) \<Rightarrow>
          (Inr pages,
           w\<lparr>site_pages := site,
             rep_stages := rep_stages w @ [(''site_generation'', [(''pages'', pages)])]\<rparr>))"

text \<open>
  \<open>run\<close>: no stage is wrapped in a \<open>try\<close>, so an exception of a stage ends the run,
  and the report is written only at the end. The result is the exception or the pair
  \<open>changed\<close> and \<open>analysis\<close>, together with the state that the run leaves.
  The writes of the store, of the search index and of the report are taken to succeed.
\<close>

definition run_io ::
  "(string \<Rightarrow> string) \<Rightarrow> (string \<Rightarrow> string + items) \<Rightarrow> (error \<Rightarrow> string) \<Rightarrow> (string \<Rightarrow> nat)
     \<Rightarrow> (string \<Rightarrow> items \<Rightarrow> error option) \<Rightarrow> config \<Rightarrow> string \<Rightarrow> entries \<Rightarrow> document
     \<Rightarrow> (error + string list \<times> (string \<times> items) list) \<times> world" where
  "run_io md5 parse str_exc count_tests write_page cfg project_dir tree doc =
     (case stage_change_detection_io md5 cfg project_dir tree (init_world doc) of
        (Inl e, w1) \<Rightarrow> (Inl e, w1)
      | (Inr changed, w1) \<Rightarrow>
          (case stage_code_analysis_io parse str_exc cfg project_dir tree
                  (if changed \<noteq> [] then Some changed else None) w1 of
             (analysis, w2) \<Rightarrow>
               (case stage_rag_indexing analysis w2 of
                  (chunks, w3) \<Rightarrow>
                    (case stage_living_docs count_tests cfg project_dir tree w3 of
                       (Inl e, w4) \<Rightarrow> (Inl e, w4)
                     | (Inr living, w4) \<Rightarrow>
                         (case stage_site_generation_io write_page analysis w4 of
                            (Inl e, w5) \<Rightarrow> (Inl e, w5)
                          | (Inr pages, w5) \<Rightarrow>
                              (Inr (changed, analysis),
                               w5\<lparr>report_file := True,
                                  rep_stats :=
                                    [(''files_analyzed'', length analysis),
                                     (''search_chunks'', chunks),
                                     (''pages_generated'', pages),
                                     (''errors'', length (rep_errors w5))]\<rparr>))))))"





text \<open>
  For the proofs: a tree of regular files as a tree of entries, a store of the previous
  section as a document, and what the analysis loop does with one path.
\<close>

definition regular :: "tree \<Rightarrow> entries" where
  "regular files = map (\<lambda>(rel, bytes). (rel, File bytes)) files"

definition doc_of :: "cache_doc \<Rightarrow> document" where
  "doc_of doc = (case doc of Missing \<Rightarrow> NoFile | Unparseable \<Rightarrow> BadJson | Stored c \<Rightarrow> JsonDict c)"


text \<open>
  For the proofs about the stages: the files of one extension that are not skipped, the
  files that the two loops of \<open>stage_change_detection\<close> visit, in order, the cache
  after writing the hashes of a list of files, the files whose hash differs from the old
  cache, and what the analysis loop does with one path (nothing when the file does not
  exist or is skipped, else the result of \<open>parse\<close>).
\<close>

definition kept :: "config \<Rightarrow> string \<Rightarrow> tree \<Rightarrow> tree" where
  "kept cfg project_dir files = filter (\<lambda>(rel, bytes). \<not> should_skip cfg (join_path project_dir rel)) files"

definition enumerated :: "config \<Rightarrow> string \<Rightarrow> tree \<Rightarrow> string list \<Rightarrow> tree" where
  "enumerated cfg project_dir tree exts = concat (map (\<lambda>ext. kept cfg project_dir (rglob tree ext)) exts)"

definition put_all :: "(string \<Rightarrow> string) \<Rightarrow> (string \<times> string) list \<Rightarrow> tree \<Rightarrow> (string \<times> string) list" where
  "put_all md5 new_cache files = foldl (\<lambda>c (rel, bytes). AList.update rel (md5 bytes) c) new_cache files"

definition differing :: "(string \<Rightarrow> string) \<Rightarrow> (string \<times> string) list \<Rightarrow> tree \<Rightarrow> string list" where
  "differing md5 old_cache files =
     map fst (filter (\<lambda>(rel, bytes). map_of old_cache rel \<noteq> Some (md5 bytes)) files)"

definition outcome :: "(string \<Rightarrow> string + 'i) \<Rightarrow> config \<Rightarrow> string \<Rightarrow> tree \<Rightarrow> string \<Rightarrow> (string + 'i) option" where
  "outcome parse cfg project_dir tree rel =
     (case map_of tree rel of
        None \<Rightarrow> None
      | Some source \<Rightarrow>
          if should_skip cfg (join_path project_dir rel) then None else Some (parse source))"

text \<open>
  For the proofs: the edges of the dependency graph, from a module to each of its
  dependents, and the invariant of the \<open>while\<close> loop when it starts from a set \<open>C\<close> of
  changed modules.
\<close>

definition dep_edges :: "('a \<times> 'a list) list \<Rightarrow> ('a \<times> 'a) set" where
  "dep_edges g = {(u, v). v \<in> set (dependents g u)}"

definition bfs_inv ::
  "('a \<times> 'a list) list \<Rightarrow> 'a set \<Rightarrow> 'a list \<Rightarrow> 'a list \<Rightarrow> 'a list \<Rightarrow> 'a list \<Rightarrow> bool" where
  "bfs_inv g C affected queue visited dequeued =
     (C \<subseteq> set affected \<and> set affected \<subseteq> (dep_edges g)\<^sup>* `` C
      \<and> visited = dequeued \<and> distinct (dequeued @ queue)
      \<and> set affected = set (dequeued @ queue)
      \<and> (\<forall>v\<in>set dequeued. set (dependents g v) \<subseteq> set affected))"

section \<open>Termination of the traversal\<close>

lemma expand_shape:
  "\<exists>new. expand ds (affected, queue) = (affected @ new, queue @ new)
         \<and> set new = set ds - set affected \<and> distinct new"
proof (induction ds arbitrary: affected queue)
  case Nil
  then show ?case by simp
next
  case (Cons d ds)
  show ?case
  proof (cases "d \<in> set affected")
    case True
    from Cons.IH [of affected queue] obtain new where
      "expand ds (affected, queue) = (affected @ new, queue @ new)"
      "set new = set ds - set affected" "distinct new" by blast
    with True show ?thesis by auto
  next
    case False
    from Cons.IH [of "affected @ [d]" "queue @ [d]"] obtain new where
      n: "expand ds (affected @ [d], queue @ [d]) = ((affected @ [d]) @ new, (queue @ [d]) @ new)"
      "set new = set ds - set (affected @ [d])" "distinct new" by blast
    have "expand (d # ds) (affected, queue) = (affected @ (d # new), queue @ (d # new))"
      using False n(1) by simp
    moreover have "set (d # new) = set (d # ds) - set affected"
      using False n(2) by auto
    moreover have "distinct (d # new)"
      using n(2,3) by auto
    ultimately show ?thesis by blast
  qed
qed

lemma dependents_nodes: "set (dependents g n) \<subseteq> set (concat (map snd g))"
proof (cases "map_of g n")
  case None
  then show ?thesis by (simp add: dependents_def)
next
  case (Some ds)
  then have "(n, ds) \<in> set g" by (rule map_of_SomeD)
  then have "set ds \<subseteq> set (concat (map snd g))" by force
  with Some show ?thesis by (simp add: dependents_def)
qed

lemma expand_measure:
  assumes "expand ds (affected, queue) = (affected', queue')" and "set ds \<subseteq> N" and "finite N"
  shows "card (N - set affected') < card (N - set affected)
         \<or> (card (N - set affected') = card (N - set affected) \<and> length queue' = length queue)"
proof -
  from expand_shape [of ds affected queue] assms(1) obtain new where
    n: "affected' = affected @ new" "queue' = queue @ new" "set new = set ds - set affected"
    by auto
  show ?thesis
  proof (cases "new = []")
    case True
    with n show ?thesis by simp
  next
    case False
    then obtain v where "v \<in> set new" by (cases new) auto
    with n(1,3) assms(2) have "v \<in> N - set affected" "v \<notin> N - set affected'" by auto
    then have "N - set affected' \<subset> N - set affected" using n(1) by auto
    then have "card (N - set affected') < card (N - set affected)"
      using assms(3) by (intro psubset_card_mono) auto
    then show ?thesis by simp
  qed
qed

text \<open>
  The graph is a finite dictionary, so only finitely many nodes can ever be added to
  \<open>affected\<close>: every iteration either adds one, or leaves \<open>affected\<close> as it is and
  shortens the queue.
\<close>

termination bfs_loop
proof (relation "(\<lambda>(g, affected, queue, visited, dequeued).
                    card (set (concat (map snd g)) - set affected))
                 <*mlex*> measure (\<lambda>(g, affected, queue, visited, dequeued). length queue)",
       goal_cases)
  case 1
  show ?case by (simp add: wf_mlex)
next
  case (2 current visited dep_graph affected queue dequeued)
  show ?case by (simp add: mlex_iff)
next
  case (3 current visited dep_graph affected queue x y dequeued)
  from expand_measure [OF 3(2) [symmetric] dependents_nodes]
  show ?case by (auto simp add: mlex_iff)
qed


section \<open>The string operations\<close>

text \<open>
  \<open>endswith\<close> is the suffix relation and \<open>str_contains\<close> is the relation of contiguous
  sublists; every component of a path occurs in the path as a substring.
\<close>

lemma endswith_suffix: "endswith s suf \<longleftrightarrow> suffix suf s"
proof
  assume "endswith s suf"
  then have "s = take (length s - length suf) s @ suf"
    by (metis append_take_drop_id endswith_def)
  then show "suffix suf s" by (rule suffixI)
next
  assume "suffix suf s"
  then obtain zs where "s = zs @ suf" by (rule suffixE)
  then show "endswith s suf" by (simp add: endswith_def)
qed

lemma str_contains_sublist: "str_contains p s \<longleftrightarrow> sublist p s"
proof (induction s)
  case Nil
  show ?case by simp
next
  case (Cons c cs)
  have "take (length p) (c # cs) = p \<longleftrightarrow> prefix p (c # cs)"
    by (metis append_eq_conv_conj prefix_def)
  with Cons show ?case by (simp add: sublist_Cons_right)
qed

lemma split_sep_hd: "split_sep s \<noteq> [] \<and> prefix (hd (split_sep s)) s"
proof (induction s)
  case Nil
  show ?case by simp
next
  case (Cons c cs)
  then show ?case by (cases "split_sep cs") auto
qed

lemma split_sep_sublist: "w \<in> set (split_sep s) \<Longrightarrow> sublist w s"
proof (induction s arbitrary: w)
  case Nil
  then show ?case by simp
next
  case (Cons c cs)
  show ?case
  proof (cases "c = os_sep")
    case True
    with Cons.prems have "w = [] \<or> w \<in> set (split_sep cs)" by simp
    then show ?thesis
    proof
      assume "w = []" then show ?thesis by simp
    next
      assume "w \<in> set (split_sep cs)"
      then have "sublist w cs" by (rule Cons.IH)
      then show ?thesis by (simp add: sublist_Cons_right)
    qed
  next
    case False
    from split_sep_hd [of cs] obtain w0 ws where s: "split_sep cs = w0 # ws" and p: "prefix w0 cs"
      by (cases "split_sep cs") auto
    with False Cons.prems have "w = c # w0 \<or> w \<in> set ws" by simp
    then show ?thesis
    proof
      assume "w = c # w0"
      with p have "prefix w (c # cs)" by simp
      then show ?thesis by (simp add: sublist_Cons_right)
    next
      assume "w \<in> set ws"
      with s have "w \<in> set (split_sep cs)" by simp
      then have "sublist w cs" by (rule Cons.IH)
      then show ?thesis by (simp add: sublist_Cons_right)
    qed
  qed
qed

lemma parts_sublist: "w \<in> set (parts p) \<Longrightarrow> sublist w p"
proof -
  assume "w \<in> set (parts p)"
  then consider "take 1 p = [os_sep]" "w = [os_sep]" | "w \<in> set (split_sep p)"
    by (auto simp: parts_def split: if_splits)
  then show ?thesis
  proof cases
    case 1
    then have "prefix w p" by (metis take_is_prefix)
    then show ?thesis by (rule prefix_imp_sublist)
  next
    case 2
    then show ?thesis by (rule split_sep_sublist)
  qed
qed

lemma rstrip_append_keep: "s \<noteq> [] \<Longrightarrow> last s \<notin> set chars \<Longrightarrow> set t \<subseteq> set chars \<Longrightarrow> rstrip (s @ t) chars = s"
proof -
  assume a: "s \<noteq> []" "last s \<notin> set chars" "set t \<subseteq> set chars"
  have "dropWhile (\<lambda>c. c \<in> set chars) (rev t @ rev s) = dropWhile (\<lambda>c. c \<in> set chars) (rev s)"
    using a(3) by (intro dropWhile_append2) auto
  also have "\<dots> = rev s" using a(1,2) by (cases "rev s") (auto simp: last_rev hd_rev)
  finally show ?thesis by (simp add: rstrip_def)
qed

section \<open>The traversal computes the dependents of the changed modules\<close>

lemma expand_affected: "set (fst (expand ds (affected, queue))) = set affected \<union> set ds"
proof -
  from expand_shape [of ds affected queue] obtain new where
    "expand ds (affected, queue) = (affected @ new, queue @ new)"
    "set new = set ds - set affected" by blast
  then show ?thesis by auto
qed

lemma bfs_loop_mono:
  "set affected \<subseteq> set (fst (bfs_loop g (affected, queue, visited, dequeued)))"
proof (induction g "(affected, queue, visited, dequeued)"
       arbitrary: affected queue visited dequeued rule: bfs_loop.induct)
  case (1 g affected visited dequeued)
  show ?case by simp
next
  case (2 g affected current queue visited dequeued)
  show ?case
  proof (cases "current \<in> set visited")
    case True
    have "bfs_loop g (affected, current # queue, visited, dequeued)
          = bfs_loop g (affected, queue, visited, dequeued @ [current])"
      using True by simp
    with 2(1) [OF True] show ?thesis by (simp only:)
  next
    case False
    obtain a' q' where e: "expand (dependents g current) (affected, queue) = (a', q')"
      by (cases "expand (dependents g current) (affected, queue)")
    have u: "bfs_loop g (affected, current # queue, visited, dequeued)
          = bfs_loop g (a', q', visited @ [current], dequeued @ [current])"
      using False e by simp
    from expand_affected [of "dependents g current" affected queue] e
    have "set affected \<subseteq> set a'" by simp
    moreover from 2(2) [OF False e [symmetric]]
    have "set a' \<subseteq> set (fst (bfs_loop g (a', q', visited @ [current], dequeued @ [current])))" .
    ultimately show ?thesis unfolding u by (rule subset_trans)
  qed
qed

lemma bfs_inv_step:
  assumes inv: "bfs_inv g C affected (current # queue) visited dequeued"
    and e: "expand (dependents g current) (affected, queue) = (a', q')"
  shows "bfs_inv g C a' q' (visited @ [current]) (dequeued @ [current])"
proof -
  from inv have i1: "C \<subseteq> set affected" and i2: "set affected \<subseteq> (dep_edges g)\<^sup>* `` C"
    and i3: "visited = dequeued" and i4: "distinct (dequeued @ current # queue)"
    and i5: "set affected = set (dequeued @ current # queue)"
    and i6: "\<forall>v\<in>set dequeued. set (dependents g v) \<subseteq> set affected"
    unfolding bfs_inv_def by blast+
  from expand_shape [of "dependents g current" affected queue] e obtain new where
    n: "a' = affected @ new" "q' = queue @ new"
       "set new = set (dependents g current) - set affected" "distinct new" by auto
  have cur: "current \<in> set affected" using i5 by simp
  have reach: "set new \<subseteq> (dep_edges g)\<^sup>* `` C"
  proof
    fix v assume "v \<in> set new"
    with n(3) have "(current, v) \<in> dep_edges g" by (simp add: dep_edges_def)
    moreover from cur i2 have "current \<in> (dep_edges g)\<^sup>* `` C" by blast
    ultimately show "v \<in> (dep_edges g)\<^sup>* `` C" by (blast intro: rtrancl_into_rtrancl)
  qed
  have a1: "C \<subseteq> set a'" using i1 n(1) by auto
  have a2: "set a' \<subseteq> (dep_edges g)\<^sup>* `` C" using i2 reach n(1) by simp
  have a3: "visited @ [current] = dequeued @ [current]" using i3 by simp
  have "set new \<inter> set affected = {}" using n(3) by blast
  then have d: "set new \<inter> set (dequeued @ current # queue) = {}" using i5 by simp
  have a4: "distinct ((dequeued @ [current]) @ q')"
    using i4 n(2,4) d by (simp add: Int_commute) blast
  have a5: "set a' = set ((dequeued @ [current]) @ q')" using i5 n(1,2) by simp blast
  have a6: "\<forall>v\<in>set (dequeued @ [current]). set (dependents g v) \<subseteq> set a'"
  proof
    fix v assume "v \<in> set (dequeued @ [current])"
    then consider "v \<in> set dequeued" | "v = current" by auto
    then show "set (dependents g v) \<subseteq> set a'"
    proof cases
      case 1
      with i6 have "set (dependents g v) \<subseteq> set affected" by blast
      then show ?thesis using n(1) by auto
    next
      case 2
      then show ?thesis using n(1,3) by auto
    qed
  qed
  show ?thesis unfolding bfs_inv_def using a1 a2 a3 a4 a5 a6 by blast
qed

lemma bfs_loop_inv:
  "bfs_inv g C affected queue visited dequeued \<Longrightarrow>
   \<exists>a v d. bfs_loop g (affected, queue, visited, dequeued) = (a, [], v, d) \<and> bfs_inv g C a [] v d"
proof (induction g "(affected, queue, visited, dequeued)"
       arbitrary: affected queue visited dequeued rule: bfs_loop.induct)
  case (1 g affected visited dequeued)
  then show ?case by simp
next
  case (2 g affected current queue visited dequeued)
  from 2(3) have "visited = dequeued" "distinct (dequeued @ current # queue)"
    unfolding bfs_inv_def by blast+
  then have nv: "current \<notin> set visited" by simp
  obtain a' q' where e: "expand (dependents g current) (affected, queue) = (a', q')"
    by (cases "expand (dependents g current) (affected, queue)")
  have u: "bfs_loop g (affected, current # queue, visited, dequeued)
          = bfs_loop g (a', q', visited @ [current], dequeued @ [current])"
    using nv e by simp
  from 2(2) [OF nv e [symmetric] bfs_inv_step [OF 2(3) e]] show ?case unfolding u .
qed

lemma closed_reach:
  assumes "C \<subseteq> A" and "\<forall>v\<in>A. set (dependents g v) \<subseteq> A"
  shows "(dep_edges g)\<^sup>* `` C \<subseteq> A"
proof
  fix v assume "v \<in> (dep_edges g)\<^sup>* `` C"
  then obtain c where "c \<in> C" "(c, v) \<in> (dep_edges g)\<^sup>*" by auto
  from this(2) this(1) show "v \<in> A"
  proof (induction rule: rtrancl_induct)
    case base
    with assms(1) show ?case by auto
  next
    case (step y z)
    with assms(2) show ?case by (auto simp: dep_edges_def)
  qed
qed

lemma resolve_from_props:
  assumes "distinct changed"
  shows "\<exists>affected dequeued. resolve_from g changed = (affected, [], dequeued, dequeued)
           \<and> distinct dequeued \<and> set dequeued = set affected
           \<and> set affected = (dep_edges g)\<^sup>* `` set changed"
proof -
  have i: "bfs_inv g (set changed) changed changed [] []"
    using assms unfolding bfs_inv_def by auto
  from bfs_loop_inv [OF i] obtain a vi d where
    r: "bfs_loop g (changed, changed, [], []) = (a, [], vi, d)"
    and inv: "bfs_inv g (set changed) a [] vi d" by blast
  from inv have f0: "set changed \<subseteq> set a \<and> set a \<subseteq> (dep_edges g)\<^sup>* `` set changed
      \<and> vi = d \<and> distinct (d @ []) \<and> set a = set (d @ [])
      \<and> (\<forall>v\<in>set d. set (dependents g v) \<subseteq> set a)"
    unfolding bfs_inv_def .
  note f1 = f0 [THEN conjunct1] and r1 = f0 [THEN conjunct2]
  note f2 = r1 [THEN conjunct1] and r2 = r1 [THEN conjunct2]
  note f3 = r2 [THEN conjunct1] and r3 = r2 [THEN conjunct2]
  note f4 = r3 [THEN conjunct1] and r4 = r3 [THEN conjunct2]
  note f5 = r4 [THEN conjunct1] and f6 = r4 [THEN conjunct2]
  have f: "set a = set d" "vi = d" "distinct d"
    "\<forall>v\<in>set d. set (dependents g v) \<subseteq> set a" "set changed \<subseteq> set a"
    "set a \<subseteq> (dep_edges g)\<^sup>* `` set changed"
    using f5 apply simp
    using f3 apply simp
    using f4 apply simp
    using f6 apply assumption
    using f1 apply assumption
    using f2 apply assumption
    done
  from f(1,4) have "\<forall>v\<in>set a. set (dependents g v) \<subseteq> set a" by simp
  with f(5) have "(dep_edges g)\<^sup>* `` set changed \<subseteq> set a" by (rule closed_reach)
  with f(6) have "set a = (dep_edges g)\<^sup>* `` set changed" by blast
  with f(1,2,3) r show ?thesis by (simp add: resolve_from_def)
qed


lemma cycle_closure:
  assumes "C \<noteq> {}" "C \<subseteq> {a, b}" "set (dependents g a) = {b}" "set (dependents g b) = {a}"
  shows "(dep_edges g)\<^sup>* `` C = {a, b}"
proof
  have "\<forall>v\<in>{a, b}. set (dependents g v) \<subseteq> {a, b}" using assms(3,4) by simp
  with assms(2) show "(dep_edges g)\<^sup>* `` C \<subseteq> {a, b}" by (rule closed_reach)
next
  have ab: "(a, b) \<in> dep_edges g" and ba: "(b, a) \<in> dep_edges g"
    using assms(3,4) by (simp_all add: dep_edges_def)
  from assms(1,2) consider "a \<in> C" | "b \<in> C" by blast
  then show "{a, b} \<subseteq> (dep_edges g)\<^sup>* `` C"
  proof cases
    case 1
    then have "a \<in> (dep_edges g)\<^sup>* `` C" by blast
    moreover from 1 ab have "b \<in> (dep_edges g)\<^sup>* `` C" by blast
    ultimately show ?thesis by simp
  next
    case 2
    then have "b \<in> (dep_edges g)\<^sup>* `` C" by blast
    moreover from 2 ba have "a \<in> (dep_edges g)\<^sup>* `` C" by blast
    ultimately show ?thesis by simp
  qed
qed

text \<open>
  The changed modules are collected in a set, so their list has no duplicates, and the
  affected set does not depend on the order in which Python enumerates that set.
\<close>

lemma changed_modules_loop_distinct:
  "distinct acc \<Longrightarrow> distinct (changed_modules_loop fs acc)"
  by (induction fs arbitrary: acc) (simp_all add: set_add_def)

lemma changed_modules_distinct: "distinct (changed_modules fs)"
  by (simp add: changed_modules_def changed_modules_loop_distinct)

lemma resolve_from_order:
  assumes "distinct xs" "distinct ys" "set xs = set ys"
  shows "set (fst (resolve_from g xs)) = set (fst (resolve_from g ys))"
proof -
  from resolve_from_props [OF assms(1), of g] have "set (fst (resolve_from g xs)) = (dep_edges g)\<^sup>* `` set xs"
    by auto
  moreover from resolve_from_props [OF assms(2), of g] have "set (fst (resolve_from g ys)) = (dep_edges g)\<^sup>* `` set ys"
    by auto
  ultimately show ?thesis using assms(3) by simp
qed

text \<open>
  Claim C1: whatever the changed modules and the dependency graph, every changed module
  is in the affected set that the resolution returns. This holds for the traversal
  started from any list of changed modules, and for \<open>resolve_affected\<close> on any list
  of changed files.
\<close>

theorem changed_subset_affected:
  "set changed \<subseteq> set (fst (resolve_from g changed))
   \<and> set (changed_modules changed_files) \<subseteq> set (resolve_affected dep_graph changed_files)"
  unfolding resolve_from_def resolve_affected_def
  using bfs_loop_mono [of changed g changed "[]" "[]"]
    bfs_loop_mono [of "changed_modules changed_files" dep_graph "changed_modules changed_files" "[]" "[]"]
  by blast

theorem changed_subset_affected_witness:
  "resolve_affected [(''a'', [''b''])] [''a.py'', ''README.md''] = [''a'', ''b'']
   \<and> changed_modules [''a.py'', ''README.md''] = [''a'']
   \<and> set (changed_modules [''a.py'', ''README.md''])
       \<subseteq> set (resolve_affected [(''a'', [''b''])] [''a.py'', ''README.md''])"
  using changed_subset_affected [of "[''a'']" "[(''a'', [''b''])]" "[''a.py'', ''README.md'']" "[(''a'', [''b''])]"]
  by (simp add: resolve_affected_def resolve_from_def changed_modules_def endswith_def
      module_of_def rstrip_def replace_char_def os_sep_def set_add_def dependents_def)

text \<open>
  Claim C4: the resolution terminates on every dependency graph, cyclic or not; no node
  is dequeued or expanded twice; and on a cycle of two modules it yields both of them
  when either has changed. \<open>bfs_loop\<close> is a total function by the termination proof
  above, and the traversal ends with the empty queue. The log of the dequeued nodes has
  no duplicates, it equals \<open>visited\<close>, the nodes that were expanded, and it holds exactly
  the affected modules. The changed modules come from a set, so the list is distinct.
\<close>

theorem resolve_from_once:
  assumes "distinct changed"
  shows "\<exists>affected dequeued.
           resolve_from g changed = (affected, [], dequeued, dequeued)
           \<and> distinct dequeued \<and> set dequeued = set affected
           \<and> (changed \<noteq> [] \<and> set changed \<subseteq> {a, b}
                \<and> set (dependents g a) = {b} \<and> set (dependents g b) = {a}
               \<longrightarrow> set affected = {a, b})"
proof -
  from resolve_from_props [OF assms, of g] obtain affected dequeued where
    r: "resolve_from g changed = (affected, [], dequeued, dequeued)"
       "distinct dequeued" "set dequeued = set affected"
       "set affected = (dep_edges g)\<^sup>* `` set changed" by blast
  have "set affected = {a, b}"
    if "changed \<noteq> []" "set changed \<subseteq> {a, b}"
       "set (dependents g a) = {b}" "set (dependents g b) = {a}"
    using cycle_closure [of "set changed" a b g] that r(4) by simp
  with r(1,2,3) show ?thesis by blast
qed

theorem resolve_from_once_witness:
  "distinct [''A''] \<and>
   build_dependency_graph (\<lambda>source. [drop 7 source])
       [(''A.py'', ''import B''), (''B.py'', ''import A'')]
     = [(''B'', [''A'']), (''A'', [''B''])] \<and>
   resolve_from [(''B'', [''A'']), (''A'', [''B''])] [''A'']
     = ([''A'', ''B''], [], [''A'', ''B''], [''A'', ''B''])
   \<and> resolve_from [(''B'', [''A'']), (''A'', [''B''])] [''B'']
     = ([''B'', ''A''], [], [''B'', ''A''], [''B'', ''A''])"
  using resolve_from_once [of "[''A'']" "[(''B'', [''A'']), (''A'', [''B''])]" "''A''" "''B''"]
  by (simp add: resolve_from_def dependents_def build_dependency_graph_def dict_add_def
      set_add_def module_of_def rstrip_def replace_char_def os_sep_def)


section \<open>The stages of the full-stack run\<close>

lemma detect_files_eq:
  "detect_files md5 cfg pd old files (nc, ch) =
     (put_all md5 nc (kept cfg pd files), ch @ differing md5 old (kept cfg pd files))"
proof (induction files arbitrary: nc ch)
  case Nil
  show ?case by (simp add: put_all_def kept_def differing_def)
next
  case (Cons f files)
  obtain rel bytes where f: "f = (rel, bytes)" by (cases f)
  show ?case unfolding f
    by (simp add: Cons.IH put_all_def kept_def differing_def)
qed

lemma put_all_append: "put_all md5 nc (xs @ ys) = put_all md5 (put_all md5 nc xs) ys"
  by (simp add: put_all_def)

lemma differing_append: "differing md5 old (xs @ ys) = differing md5 old xs @ differing md5 old ys"
  by (simp add: differing_def)

lemma detect_exts_eq:
  "detect_exts md5 cfg pd tree old exts (nc, ch) =
     (put_all md5 nc (enumerated cfg pd tree exts),
      ch @ differing md5 old (enumerated cfg pd tree exts))"
proof (induction exts arbitrary: nc ch)
  case Nil
  show ?case by (simp add: enumerated_def put_all_def differing_def)
next
  case (Cons ext exts)
  have e: "enumerated cfg pd tree (ext # exts) = kept cfg pd (rglob tree ext) @ enumerated cfg pd tree exts"
    by (simp add: enumerated_def)
  show ?case
    by (simp add: detect_files_eq Cons.IH e put_all_append differing_append)
qed

lemma put_all_keys: "fst ` set (put_all md5 nc xs) = fst ` set nc \<union> fst ` set xs"
proof (induction xs arbitrary: nc)
  case Nil
  show ?case by (simp add: put_all_def)
next
  case (Cons x xs)
  obtain rel bytes where x: "x = (rel, bytes)" by (cases x)
  have "put_all md5 nc (x # xs) = put_all md5 (AList.update rel (md5 bytes) nc) xs"
    by (simp add: put_all_def x)
  then show ?case using Cons.IH [of "AList.update rel (md5 bytes) nc"]
    by (simp add: x dom_update)
qed


lemma enumerated_set:
  "set (enumerated cfg pd tree exts) =
     {(rel, bytes). (rel, bytes) \<in> set tree \<and> list_ex (endswith rel) exts
                    \<and> \<not> should_skip cfg (join_path pd rel)}"
  by (auto simp: enumerated_def kept_def rglob_def list_ex_iff)


lemma analyze_files_Cons:
  "analyze_files parse cfg pd tree (rel # fs) (an, errs) =
     analyze_files parse cfg pd tree fs
       (case outcome parse cfg pd tree rel of
          None \<Rightarrow> (an, errs)
        | Some (Inr items) \<Rightarrow> (AList.update rel items an, errs)
        | Some (Inl e) \<Rightarrow> (an, errs @ [parse_error rel e]))"
  by (simp add: outcome_def split: option.splits sum.splits)

lemma analyze_errors_mono:
  "set errs \<subseteq> set (snd (analyze_files parse cfg pd tree fs (an, errs)))"
proof (induction fs arbitrary: an errs)
  case Nil
  show ?case by simp
next
  case (Cons rel fs)
  show ?case
  proof (cases "outcome parse cfg pd tree rel")
    case None
    with Cons.IH [of errs an] show ?thesis by (simp only: analyze_files_Cons option.case)
  next
    case (Some r)
    show ?thesis
    proof (cases r)
      case (Inl e)
      with Some Cons.IH [of "errs @ [parse_error rel e]" an] show ?thesis
        by (simp only: analyze_files_Cons option.case sum.case) simp
    next
      case (Inr items)
      with Some Cons.IH [of errs "AList.update rel items an"] show ?thesis
        by (simp only: analyze_files_Cons option.case sum.case)
    qed
  qed
qed

lemma analyze_errors_recorded:
  "rel \<in> set fs \<Longrightarrow> outcome parse cfg pd tree rel = Some (Inl e) \<Longrightarrow>
   parse_error rel e \<in> set (snd (analyze_files parse cfg pd tree fs (an, errs)))"
proof (induction fs arbitrary: an errs)
  case Nil
  then show ?case by simp
next
  case (Cons f fs)
  show ?case
  proof (cases "f = rel")
    case True
    have "parse_error rel e \<in> set (errs @ [parse_error rel e])" by simp
    with analyze_errors_mono [of "errs @ [parse_error rel e]" parse cfg pd tree fs an]
    have "parse_error rel e \<in> set (snd (analyze_files parse cfg pd tree fs (an, errs @ [parse_error rel e])))"
      by blast
    with True Cons.prems(2) show ?thesis by (simp only: analyze_files_Cons option.case sum.case)
  next
    case False
    with Cons.prems have in_fs: "rel \<in> set fs" by simp
    obtain an' errs' where c: "(case outcome parse cfg pd tree f of
          None \<Rightarrow> (an, errs)
        | Some (Inr items) \<Rightarrow> (AList.update f items an, errs)
        | Some (Inl e) \<Rightarrow> (an, errs @ [parse_error f e])) = (an', errs')"
      by (cases "(case outcome parse cfg pd tree f of
          None \<Rightarrow> (an, errs)
        | Some (Inr items) \<Rightarrow> (AList.update f items an, errs)
        | Some (Inl e) \<Rightarrow> (an, errs @ [parse_error f e]))")
    from Cons.IH [OF in_fs Cons.prems(2), of an' errs'] show ?thesis
      by (simp only: analyze_files_Cons c)
  qed
qed

lemma analyze_keys:
  "fst ` set (fst (analyze_files parse cfg pd tree fs (an, errs))) =
     fst ` set an \<union> {rel \<in> set fs. \<exists>items. outcome parse cfg pd tree rel = Some (Inr items)}"
proof (induction fs arbitrary: an errs)
  case Nil
  show ?case by simp
next
  case (Cons f fs)
  show ?case
  proof (cases "outcome parse cfg pd tree f")
    case None
    with Cons.IH [of an errs] show ?thesis
      by (simp only: analyze_files_Cons option.case) auto
  next
    case (Some r)
    show ?thesis
    proof (cases r)
      case (Inl e)
      with Some Cons.IH [of an "errs @ [parse_error f e]"] show ?thesis
        by (simp only: analyze_files_Cons option.case sum.case) auto
    next
      case (Inr items)
      with Some Cons.IH [of "AList.update f items an" errs] show ?thesis
        by (simp only: analyze_files_Cons option.case sum.case) (auto simp: dom_update)
    qed
  qed
qed

lemma analyze_lookup:
  "outcome parse cfg pd tree rel = Some (Inr items) \<Longrightarrow>
   rel \<in> set fs \<or> map_of an rel = Some items \<Longrightarrow>
   map_of (fst (analyze_files parse cfg pd tree fs (an, errs))) rel = Some items"
proof (induction fs arbitrary: an errs)
  case Nil
  then show ?case by simp
next
  case (Cons f fs)
  obtain an' errs' where c: "(case outcome parse cfg pd tree f of
        None \<Rightarrow> (an, errs)
      | Some (Inr items) \<Rightarrow> (AList.update f items an, errs)
      | Some (Inl e) \<Rightarrow> (an, errs @ [parse_error f e])) = (an', errs')"
    by (cases "(case outcome parse cfg pd tree f of
        None \<Rightarrow> (an, errs)
      | Some (Inr items) \<Rightarrow> (AList.update f items an, errs)
      | Some (Inl e) \<Rightarrow> (an, errs @ [parse_error f e]))")
  have "rel \<in> set fs \<or> map_of an' rel = Some items"
  proof (cases "f = rel")
    case True
    with Cons.prems(1) c have "an' = AList.update rel items an" by simp
    then show ?thesis by (simp add: update_conv')
  next
    case False
    show ?thesis
    proof (cases "rel \<in> set fs")
      case True
      then show ?thesis by simp
    next
      case nin: False
      with Cons.prems(2) False have m: "map_of an rel = Some items" by simp
      have "map_of an' rel = map_of an rel"
        using c False by (auto simp: update_conv' split: option.splits sum.splits)
      with m show ?thesis by simp
    qed
  qed
  from Cons.IH [OF Cons.prems(1) this, of errs'] show ?case
    by (simp only: analyze_files_Cons c)
qed

lemma stage_change_detection_Inr:
  assumes "load_cache (cache_file p) = Inr old"
  shows "stage_change_detection md5 cfg pd tree p =
           Inr (differing md5 old (enumerated cfg pd tree (extensions cfg)),
                p\<lparr>cache_file := Stored (put_all md5 [] (enumerated cfg pd tree (extensions cfg))),
                  report_stages := report_stages p @
                    [(''change_detection'',
                      [(''changed_files'', length (differing md5 old (enumerated cfg pd tree (extensions cfg)))),
                       (''total_files'', length (put_all md5 [] (enumerated cfg pd tree (extensions cfg))))])]\<rparr>)"
  using assms by (simp add: stage_change_detection_def detect_exts_eq)

lemma stage_change_detection_cases:
  "stage_change_detection md5 cfg pd tree p = Inr (changed, p1) \<Longrightarrow>
   \<exists>old. load_cache (cache_file p) = Inr old
     \<and> changed = differing md5 old (enumerated cfg pd tree (extensions cfg))
     \<and> cache_file p1 = Stored (put_all md5 [] (enumerated cfg pd tree (extensions cfg)))
     \<and> report_errors p1 = report_errors p \<and> site_written p1 = site_written p"
proof (cases "load_cache (cache_file p)")
  case (Inl e)
  assume "stage_change_detection md5 cfg pd tree p = Inr (changed, p1)"
  with Inl show ?thesis by (simp add: stage_change_detection_def)
next
  case (Inr old)
  assume "stage_change_detection md5 cfg pd tree p = Inr (changed, p1)"
  with stage_change_detection_Inr [OF Inr, of md5 cfg pd tree] Inr show ?thesis by auto
qed

lemma run_Inr:
  fixes md5 :: "string \<Rightarrow> string" and parse :: "string \<Rightarrow> string + 'i"
    and cfg :: config and pd :: string and tree :: tree and old :: "(string \<times> string) list"
  assumes "load_cache doc = Inr old"
  defines "E \<equiv> enumerated cfg pd tree (extensions cfg)"
  defines "ch \<equiv> differing md5 old E"
  defines "r \<equiv> analyze_files parse cfg pd tree
                  (select_py_files tree (if ch \<noteq> [] then Some ch else None)) ([], [])"
  shows "\<exists>p. run md5 parse cfg pd tree doc = Inr (ch, fst r, p)
           \<and> cache_file p = Stored (put_all md5 [] E)
           \<and> report_errors p = snd r
           \<and> site_written p = [''style.css'', ''index.html''] @ map (\<lambda>(fp, items). page_name fp) (fst r)"
proof -
  have l: "load_cache (cache_file (init_pipeline doc)) = Inr old"
    using assms(1) by (simp add: init_pipeline_def)
  obtain an errs where a: "r = (an, errs)" by (cases r)
  have f: "report_errors (init_pipeline doc) = []" "site_written (init_pipeline doc) = []"
    by (simp_all add: init_pipeline_def)
  show ?thesis
    using a f unfolding r_def ch_def E_def
    by (simp add: run_def stage_change_detection_Inr [OF l] stage_code_analysis_def
        stage_site_generation_def)
qed

lemma run_cases:
  assumes "run md5 parse cfg pd tree doc = Inr (changed, analysis, p)"
  shows "\<exists>old. load_cache doc = Inr old
     \<and> changed = differing md5 old (enumerated cfg pd tree (extensions cfg))
     \<and> analysis = fst (analyze_files parse cfg pd tree
                  (select_py_files tree (if changed \<noteq> [] then Some changed else None)) ([], []))
     \<and> report_errors p = snd (analyze_files parse cfg pd tree
                  (select_py_files tree (if changed \<noteq> [] then Some changed else None)) ([], []))
     \<and> cache_file p = Stored (put_all md5 [] (enumerated cfg pd tree (extensions cfg)))
     \<and> site_written p = [''style.css'', ''index.html''] @ map (\<lambda>(fp, items). page_name fp) analysis"
proof (cases "load_cache doc")
  case (Inl e)
  with assms show ?thesis
    by (simp add: run_def stage_change_detection_def init_pipeline_def)
next
  case (Inr old)
  from run_Inr [OF Inr, of md5 parse cfg pd tree] assms Inr show ?thesis by auto
qed

lemma enumerated_keys:
  "fst ` set (enumerated cfg pd tree exts) =
     {rel. \<exists>bytes. (rel, bytes) \<in> set tree \<and> list_ex (endswith rel) exts
                    \<and> \<not> should_skip cfg (join_path pd rel)}"
  unfolding enumerated_set by force


lemma changed_modules_loop_filter:
  "changed_modules_loop (filter (\<lambda>f. endswith f ''.py'') fs) acc = changed_modules_loop fs acc"
  by (induction fs arbitrary: acc) simp_all

section \<open>The store after a run\<close>

text \<open>
  Claim C9: after a run the store holds an entry for exactly the files that the run
  enumerated, namely the files of the tree that end in a configured extension and are not
  skipped. The old store does not enter the new one, so a file that was deleted from the
  tree since the previous run has no entry.
\<close>

theorem store_holds_enumerated_files:
  assumes "run md5 parse cfg pd tree doc = Inr (changed, analysis, p)"
  shows "\<exists>new_cache. cache_file p = Stored new_cache
           \<and> fst ` set new_cache =
               {rel. \<exists>bytes. (rel, bytes) \<in> set tree \<and> list_ex (endswith rel) (extensions cfg)
                              \<and> \<not> should_skip cfg (join_path pd rel)}
           \<and> fst ` set new_cache \<subseteq> fst ` set tree"
proof -
  from run_cases [OF assms] have
    c: "cache_file p = Stored (put_all md5 [] (enumerated cfg pd tree (extensions cfg)))" by blast
  have k: "fst ` set (put_all md5 [] (enumerated cfg pd tree (extensions cfg))) =
        {rel. \<exists>bytes. (rel, bytes) \<in> set tree \<and> list_ex (endswith rel) (extensions cfg)
                              \<and> \<not> should_skip cfg (join_path pd rel)}"
    by (simp add: put_all_keys enumerated_keys)
  moreover have "{rel. \<exists>bytes. (rel, bytes) \<in> set tree \<and> list_ex (endswith rel) (extensions cfg)
                              \<and> \<not> should_skip cfg (join_path pd rel)} \<subseteq> fst ` set tree"
    by force
  ultimately show ?thesis using c by simp
qed

theorem store_holds_enumerated_files_witness:
  "run id Inr DEFAULT_CONFIG ''/repo'' [(''a.py'', ''x'')]
       (Stored [(''a.py'', ''x''), (''gone.py'', ''y'')])
     = Inr ([], [(''a.py'', ''x'')],
         \<lparr>cache_file = Stored [(''a.py'', ''x'')],
          site_written = [''style.css'', ''index.html'', ''a_py.html''],
          report_stages =
            [(''change_detection'', [(''changed_files'', 0), (''total_files'', 1)]),
             (''code_analysis'', [(''analyzed_files'', 1)]),
             (''site_generation'', [(''pages'', 2)])],
          report_errors = [],
          report_stats = [(''files_analyzed'', 1), (''pages_generated'', 2), (''errors'', 0)]\<rparr>)"
  using store_holds_enumerated_files [of id Inr DEFAULT_CONFIG "''/repo''" "[(''a.py'', ''x'')]"
      "Stored [(''a.py'', ''x''), (''gone.py'', ''y'')]" "[]" "[(''a.py'', ''x'')]"]
  by (simp add: run_def stage_change_detection_def load_cache_def init_pipeline_def
      DEFAULT_CONFIG_def rglob_def endswith_def should_skip_def join_path_def os_sep_def
      stage_code_analysis_def select_py_files_def stage_site_generation_def page_name_def
      replace_char_def)

section \<open>When the store is written\<close>

text \<open>
  The definitions that evaluate a run on a concrete tree.
\<close>

lemmas eval_defs = run_def stage_change_detection_def load_cache_def init_pipeline_def
      DEFAULT_CONFIG_def rglob_def endswith_def should_skip_def join_path_def os_sep_def
      stage_code_analysis_def select_py_files_def stage_site_generation_def page_name_def
      replace_char_def parse_error_def

text \<open>
  Claim C6, as the code has it: the store is replaced by the one write that ends
  \<open>stage_change_detection\<close>, the first stage of the run, and not at the end of the run.
  When that stage returns, the store holds the fingerprints of exactly the files it
  enumerated; the stages that follow do not touch the store, so the run ends with the store
  that the first stage wrote.
\<close>

theorem store_written_by_first_stage:
  assumes "stage_change_detection md5 cfg pd tree (init_pipeline doc) = Inr (changed, p1)"
  shows "\<exists>new_cache analysis p.
           cache_file p1 = Stored new_cache
           \<and> fst ` set new_cache =
               {rel. \<exists>bytes. (rel, bytes) \<in> set tree \<and> list_ex (endswith rel) (extensions cfg)
                              \<and> \<not> should_skip cfg (join_path pd rel)}
           \<and> run md5 parse cfg pd tree doc = Inr (changed, analysis, p)
           \<and> cache_file p = Stored new_cache"
proof -
  from stage_change_detection_cases [OF assms] obtain old where
    o: "load_cache (cache_file (init_pipeline doc)) = Inr old"
       "changed = differing md5 old (enumerated cfg pd tree (extensions cfg))"
       "cache_file p1 = Stored (put_all md5 [] (enumerated cfg pd tree (extensions cfg)))"
    by blast
  from o(1) have l: "load_cache doc = Inr old" by (simp add: init_pipeline_def)
  from run_Inr [OF l, of md5 parse cfg pd tree] o(2) obtain analysis p where
    "run md5 parse cfg pd tree doc = Inr (changed, analysis, p)"
    "cache_file p = Stored (put_all md5 [] (enumerated cfg pd tree (extensions cfg)))"
    by auto
  with o(3) show ?thesis by (simp add: put_all_keys enumerated_keys)
qed

theorem store_written_by_first_stage_witness:
  "stage_change_detection id DEFAULT_CONFIG ''/repo'' [(''a.py'', ''x'')]
       (init_pipeline (Stored [(''a.py'', ''old'')]))
     = Inr ([''a.py''],
         \<lparr>cache_file = Stored [(''a.py'', ''x'')], site_written = [],
          report_stages = [(''change_detection'', [(''changed_files'', 1), (''total_files'', 1)])],
          report_errors = [], report_stats = []\<rparr>)
   \<and> run id Inr DEFAULT_CONFIG ''/repo'' [(''a.py'', ''x'')] (Stored [(''a.py'', ''old'')])
     = Inr ([''a.py''], [(''a.py'', ''x'')],
         \<lparr>cache_file = Stored [(''a.py'', ''x'')],
          site_written = [''style.css'', ''index.html'', ''a_py.html''],
          report_stages =
            [(''change_detection'', [(''changed_files'', 1), (''total_files'', 1)]),
             (''code_analysis'', [(''analyzed_files'', 1)]),
             (''site_generation'', [(''pages'', 2)])],
          report_errors = [],
          report_stats = [(''files_analyzed'', 1), (''pages_generated'', 2), (''errors'', 0)]\<rparr>)"
  using store_written_by_first_stage [of id DEFAULT_CONFIG "''/repo''" "[(''a.py'', ''x'')]"
      "Stored [(''a.py'', ''old'')]" "[''a.py'']"
      "\<lparr>cache_file = Stored [(''a.py'', ''x'')], site_written = [],
          report_stages = [(''change_detection'', [(''changed_files'', 1), (''total_files'', 1)])],
          report_errors = [], report_stats = []\<rparr>" Inr]
  by (simp add: eval_defs)

text \<open>
  The claim as stated, that the store is persisted only at the very end of a run, fails:
  when the first stage has returned, with the analysis and the generation of the site
  still to come, the previous store is already gone.
\<close>

theorem store_replaced_before_analysis:
  "stage_change_detection id DEFAULT_CONFIG ''/repo'' [(''a.py'', ''x'')]
       (init_pipeline (Stored [(''a.py'', ''old'')]))
     = Inr ([''a.py''],
         \<lparr>cache_file = Stored [(''a.py'', ''x'')], site_written = [],
          report_stages = [(''change_detection'', [(''changed_files'', 1), (''total_files'', 1)])],
          report_errors = [], report_stats = []\<rparr>)
   \<and> Stored [(''a.py'', ''x'')] \<noteq> Stored [(''a.py'', ''old'')]"
  by (simp add: eval_defs)

section \<open>Running twice\<close>




section \<open>The run on an arbitrary tree\<close>






lemma write_pages_done:
  "write_pages write_page analysis (pages, site) = (None, pages', site') \<Longrightarrow>
   site' = site @ map (\<lambda>(fp, its). page_name fp) analysis \<and> pages' = pages + length analysis"
proof (induction analysis arbitrary: pages site)
  case Nil
  then show ?case by simp
next
  case (Cons a analysis)
  obtain fp its where a: "a = (fp, its)" by (cases a)
  show ?case
  proof (cases "write_page fp its")
    case None
    with Cons.prems a have
      "write_pages write_page analysis (pages + 1, site @ [page_name fp]) = (None, pages', site')"
      by simp
    from Cons.IH [OF this] a show ?thesis by simp
  next
    case (Some e)
    with Cons.prems a show ?thesis by simp
  qed
qed

lemma change_detection_io_fields:
  assumes "stage_change_detection_io md5 cfg pd tree w = (r, w1)"
  shows "rep_errors w1 = rep_errors w" and "site_pages w1 = site_pages w"
    and "report_file w1 = report_file w"
    and "(\<exists>e. r = Inl e) \<Longrightarrow> w1 = w"
    and "(\<exists>ch. r = Inr ch) \<Longrightarrow> \<exists>nc. doc_cache w1 = JsonDict nc"
  using assms
  by (auto simp: stage_change_detection_io_def split: sum.splits prod.splits)

lemma code_analysis_io_fields:
  assumes "stage_code_analysis_io parse str_exc cfg pd tree fs w = (analysis, w2)"
  shows "analysis = fst (analyze_files_io parse str_exc cfg pd tree (select_py_files_io tree fs) ([], rep_errors w))"
    and "rep_errors w2 = snd (analyze_files_io parse str_exc cfg pd tree (select_py_files_io tree fs) ([], rep_errors w))"
    and "site_pages w2 = site_pages w" and "doc_cache w2 = doc_cache w"
    and "report_file w2 = report_file w"
  using assms
  by (auto simp: stage_code_analysis_io_def split: prod.splits)

lemma rag_indexing_fields:
  assumes "stage_rag_indexing analysis w = (chunks, w3)"
  shows "rep_errors w3 = rep_errors w" and "site_pages w3 = site_pages w"
    and "doc_cache w3 = doc_cache w" and "report_file w3 = report_file w"
  using assms by (auto simp: stage_rag_indexing_def)

lemma living_docs_fields:
  assumes "stage_living_docs count_tests cfg pd tree w = (r, w4)"
  shows "rep_errors w4 = rep_errors w" and "site_pages w4 = site_pages w"
    and "doc_cache w4 = doc_cache w" and "report_file w4 = report_file w"
  using assms by (auto simp: stage_living_docs_def split: sum.splits)

lemma site_generation_io_fields:
  assumes "stage_site_generation_io write_page analysis w = (r, w5)"
  shows "rep_errors w5 = rep_errors w" and "doc_cache w5 = doc_cache w"
    and "report_file w5 = report_file w"
    and "(\<exists>pages. r = Inr pages) \<Longrightarrow>
         site_pages w5 = site_pages w @ [''style.css'', ''index.html'']
                          @ map (\<lambda>(fp, its). page_name fp) analysis"
proof -
  obtain eo pages site where
    wp: "write_pages write_page analysis (1, site_pages w @ [''style.css'', ''index.html''])
         = (eo, pages, site)"
    by (cases "write_pages write_page analysis (1, site_pages w @ [''style.css'', ''index.html''])")
  from assms wp show "rep_errors w5 = rep_errors w" "doc_cache w5 = doc_cache w"
    "report_file w5 = report_file w"
    by (auto simp: stage_site_generation_io_def split: option.splits)
  show "site_pages w5 = site_pages w @ [''style.css'', ''index.html'']
                          @ map (\<lambda>(fp, its). page_name fp) analysis"
    if "\<exists>pages. r = Inr pages"
  proof -
    from that assms wp have eo: "eo = None" and w5: "site_pages w5 = site"
      by (auto simp: stage_site_generation_io_def split: option.splits)
    from write_pages_done [OF wp [unfolded eo]] w5 show ?thesis by simp
  qed
qed

lemma init_world_fields:
  "rep_errors (init_world doc) = []" "site_pages (init_world doc) = []"
  "doc_cache (init_world doc) = doc" "report_file (init_world doc) = False"
  by (simp_all add: init_world_def)


text \<open>
  The store that the first stage wrote is the store at the end of the run, whether the run
  completes or an exception of a later stage ends it.
\<close>

lemma run_io_store_after_first_stage:
  assumes "stage_change_detection_io md5 cfg pd tree (init_world doc) = (Inr changed, w1)"
    and "run_io md5 parse str_exc count_tests write_page cfg pd tree doc = (r, w)"
  shows "doc_cache w = doc_cache w1"
proof -
  let ?fs = "if changed \<noteq> [] then Some changed else None"
  obtain an w2 where s2: "stage_code_analysis_io parse str_exc cfg pd tree ?fs w1 = (an, w2)"
    by (cases "stage_code_analysis_io parse str_exc cfg pd tree ?fs w1")
  obtain chunks w3 where s3: "stage_rag_indexing an w2 = (chunks, w3)"
    by (cases "stage_rag_indexing an w2")
  obtain r4 w4 where s4: "stage_living_docs count_tests cfg pd tree w3 = (r4, w4)"
    by (cases "stage_living_docs count_tests cfg pd tree w3")
  obtain r5 w5 where s5: "stage_site_generation_io write_page an w4 = (r5, w5)"
    by (cases "stage_site_generation_io write_page an w4")
  note f2 = code_analysis_io_fields [OF s2]
  note f3 = rag_indexing_fields [OF s3]
  note f4 = living_docs_fields [OF s4]
  note f5 = site_generation_io_fields [OF s5]
  have d4: "doc_cache w4 = doc_cache w1" using f4(3) f3(3) f2(4) by simp
  have d5: "doc_cache w5 = doc_cache w1" using f5(2) d4 by simp
  show ?thesis
  proof (cases r4)
    case (Inl e)
    with assms s2 s3 s4 have "w = w4" by (simp add: run_io_def)
    with d4 show ?thesis by simp
  next
    case (Inr u)
    show ?thesis
    proof (cases r5)
      case (Inl e)
      with assms s2 s3 s4 Inr s5 have "w = w5" by (simp add: run_io_def)
      with d5 show ?thesis by simp
    next
      case r: (Inr pages)
      with assms s2 s3 s4 Inr s5 have "doc_cache w = doc_cache w5" by (auto simp add: run_io_def)
      with d5 show ?thesis by simp
    qed
  qed
qed

text \<open>
  On a tree of regular files, with a store of the previous section and an output
  directory that takes every page, the run is the run of the previous section.
\<close>

lemma regular_simps:
  "regular [] = []" "regular ((rel, bytes) # fs) = (rel, File bytes) # regular fs"
  "regular (xs @ ys) = regular xs @ regular ys"
  by (simp_all add: regular_def)

lemma rglob_io_regular: "rglob_io (regular files) ext = regular (rglob files ext)"
  by (simp add: rglob_io_def rglob_def regular_def filter_map comp_def case_prod_unfold)

lemma detect_files_io_regular:
  "detect_files_io md5 cfg pd (Some d) (regular fs) acc = Inr (detect_files md5 cfg pd d fs acc)"
proof (induction fs arbitrary: acc)
  case Nil
  show ?case by (cases acc) (simp add: regular_simps)
next
  case (Cons f fs)
  obtain rel bytes where f: "f = (rel, bytes)" by (cases f)
  obtain nc ch where acc: "acc = (nc, ch)" by (cases acc)
  show ?case unfolding acc f
    by (simp add: regular_simps read_bytes_def Cons.IH)
qed

lemma detect_exts_io_regular:
  "detect_exts_io md5 cfg pd (regular files) (Some d) exts acc
     = Inr (detect_exts md5 cfg pd files d exts acc)"
  by (induction exts arbitrary: acc) (simp_all add: rglob_io_regular detect_files_io_regular)

lemma map_of_regular: "map_of (regular files) rel = map_option File (map_of files rel)"
  by (induction files) (auto simp: regular_def)

lemma select_py_files_io_regular: "select_py_files_io (regular files) fs = select_py_files files fs"
proof -
  have "map fst (regular xs) = map fst xs" for xs
    by (simp add: regular_def comp_def case_prod_unfold)
  then show ?thesis
    by (simp add: select_py_files_io_def select_py_files_def rglob_io_regular split: option.splits)
qed

lemma analyze_files_io_regular:
  "analyze_files_io parse str_exc cfg pd (regular files) fs acc
     = analyze_files parse cfg pd files fs acc"
proof (induction fs arbitrary: acc)
  case Nil
  show ?case by (cases acc) simp
next
  case (Cons rel fs)
  obtain an errs where acc: "acc = (an, errs)" by (cases acc)
  show ?case unfolding acc
    by (cases "map_of files rel")
      (simp_all add: map_of_regular path_exists_def read_and_parse_def read_bytes_def Cons.IH
        split: sum.splits)
qed

lemma count_tests_loop_regular:
  "\<exists>tests'. count_tests_loop count_tests cfg pd (regular fs) tests = Inr tests'"
proof (induction fs arbitrary: tests)
  case Nil
  show ?case by (simp add: regular_simps)
next
  case (Cons f fs)
  obtain rel bytes where f: "f = (rel, bytes)" by (cases f)
  show ?case unfolding f using Cons.IH by (simp add: regular_simps read_bytes_def)
qed

lemma name_glob_regular:
  "\<exists>fs. name_glob (regular files) pre suf = regular fs"
proof -
  have "name_glob (regular files) pre suf
        = regular (filter (\<lambda>(rel, b). startswith (basename rel) pre \<and> endswith (basename rel) suf
                        \<and> length pre + length suf \<le> length (basename rel)) files)"
    by (simp add: name_glob_def regular_def filter_map comp_def case_prod_unfold)
  then show ?thesis by blast
qed

lemma living_docs_regular:
  "\<exists>w4. stage_living_docs count_tests cfg pd (regular files) w = (Inr (), w4)"
proof -
  obtain fs where "name_glob (regular files) ''test_'' ''.py'' = regular fs"
    using name_glob_regular by blast
  then have "name_glob (regular files) ''test_'' ''.py'' @ rglob_io (regular files) ''_test.py''
             = regular (fs @ rglob files ''_test.py'')"
    by (simp add: rglob_io_regular regular_simps)
  with count_tests_loop_regular [of count_tests cfg pd "fs @ rglob files ''_test.py''" 0]
  show ?thesis by (auto simp: stage_living_docs_def)
qed

lemma write_pages_ok:
  "(\<And>fp its. write_page fp its = None) \<Longrightarrow>
   write_pages write_page analysis (pages, site)
     = (None, pages + length analysis, site @ map (\<lambda>(fp, its). page_name fp) analysis)"
proof (induction analysis arbitrary: pages site)
  case Nil
  show ?case by simp
next
  case (Cons a analysis)
  obtain fp its where a: "a = (fp, its)" by (cases a)
  from Cons.prems have "write_page fp its = None" .
  with Cons.IH [OF Cons.prems, of "pages + 1" "site @ [page_name fp]"] show ?case
    by (simp add: a)
qed

lemma run_io_regular:
  fixes parse :: "string \<Rightarrow> string + items"
  assumes ok: "\<And>fp its. write_page fp its = None"
    and run: "run md5 parse cfg pd files doc = Inr (changed, analysis, p)"
  shows "\<exists>w. run_io md5 parse str_exc count_tests write_page cfg pd (regular files) (doc_of doc)
               = (Inr (changed, analysis), w)
             \<and> doc_cache w = doc_of (cache_file p) \<and> site_pages w = site_written p
             \<and> rep_errors w = report_errors p"
proof -
  from run_cases [OF run] obtain old where
    o: "load_cache doc = Inr old"
       "changed = differing md5 old (enumerated cfg pd files (extensions cfg))"
       "analysis = fst (analyze_files parse cfg pd files
                  (select_py_files files (if changed \<noteq> [] then Some changed else None)) ([], []))"
       "report_errors p = snd (analyze_files parse cfg pd files
                  (select_py_files files (if changed \<noteq> [] then Some changed else None)) ([], []))"
       "cache_file p = Stored (put_all md5 [] (enumerated cfg pd files (extensions cfg)))"
       "site_written p = [''style.css'', ''index.html''] @ map (\<lambda>(fp, items). page_name fp) analysis"
    by blast
  let ?nc = "put_all md5 [] (enumerated cfg pd files (extensions cfg))"
  from o(1) have l: "load_cache_io (doc_of doc) = Inr (Some old)"
    by (cases doc) (simp_all add: load_cache_def load_cache_io_def doc_of_def)
  have d: "detect_exts_io md5 cfg pd (regular files) (Some old) (extensions cfg) ([], [])
           = Inr (?nc, changed)"
    by (simp add: detect_exts_io_regular detect_exts_eq o(2))
  obtain w1 where s1:
    "stage_change_detection_io md5 cfg pd (regular files) (init_world (doc_of doc)) = (Inr changed, w1)"
    "doc_cache w1 = JsonDict ?nc"
    using l d by (simp add: stage_change_detection_io_def init_world_def)
  let ?fs = "if changed \<noteq> [] then Some changed else None"
  obtain an w2 where s2:
    "stage_code_analysis_io parse str_exc cfg pd (regular files) ?fs w1 = (an, w2)"
    by (cases "stage_code_analysis_io parse str_exc cfg pd (regular files) ?fs w1")
  obtain chunks w3 where s3: "stage_rag_indexing an w2 = (chunks, w3)"
    by (cases "stage_rag_indexing an w2")
  obtain w4 where s4: "stage_living_docs count_tests cfg pd (regular files) w3 = (Inr (), w4)"
    using living_docs_regular by blast
  note f1 = change_detection_io_fields [OF s1(1)] init_world_fields [of "doc_of doc"]
  note f2 = code_analysis_io_fields [OF s2]
  note f3 = rag_indexing_fields [OF s3]
  note f4 = living_docs_fields [OF s4]
  have e1: "rep_errors w1 = []" using f1(1) f1(6) by simp
  have an: "an = analysis"
    using f2(1) e1 o(3) by (simp add: analyze_files_io_regular select_py_files_io_regular)
  have errs: "rep_errors w2 = report_errors p"
    using f2(2) e1 o(4) by (simp add: analyze_files_io_regular select_py_files_io_regular)
  have sp: "site_pages w4 = []" using f4(2) f3(2) f2(3) f1(2) f1(7) by simp
  let ?w5 = "w4\<lparr>site_pages := [''style.css'', ''index.html'']
                   @ map (\<lambda>(fp, its). page_name fp) an,
                 rep_stages := rep_stages w4 @ [(''site_generation'', [(''pages'', 1 + length an)])]\<rparr>"
  have s5: "stage_site_generation_io write_page an w4 = (Inr (1 + length an), ?w5)"
    using write_pages_ok [of write_page an 1 "site_pages w4 @ [''style.css'', ''index.html'']", OF ok] sp
    by (simp add: stage_site_generation_io_def)
  let ?w = "?w5\<lparr>report_file := True,
                rep_stats := [(''files_analyzed'', length an), (''search_chunks'', chunks),
                              (''pages_generated'', 1 + length an),
                              (''errors'', length (rep_errors ?w5))]\<rparr>"
  have "run_io md5 parse str_exc count_tests write_page cfg pd (regular files) (doc_of doc)
          = (Inr (changed, an), ?w)"
    using s1(1) s2 s3 s4 s5 by (simp add: run_io_def)
  moreover have "doc_cache ?w = doc_of (cache_file p)"
    using f4(3) f3(3) f2(4) s1(2) o(5) by (simp add: doc_of_def)
  moreover have "site_pages ?w = site_written p" using o(6) an by simp
  moreover have "rep_errors ?w = report_errors p" using f4(1) f3(1) errs by simp
  ultimately show ?thesis using an by blast
qed

text \<open>
  When every page can be written, the run completes exactly when change detection and
  the count of the tests raise nothing: what the parser does with a file never decides
  whether the run ends with an exception.
\<close>

lemma living_docs_outcome:
  "fst (stage_living_docs count_tests cfg pd tree w)
     = fst (stage_living_docs count_tests cfg pd tree w')"
  by (simp add: stage_living_docs_def split: sum.splits)

lemma run_io_completes_iff:
  assumes ok: "\<And>fp its. write_page fp its = None"
  shows "(\<exists>r w. run_io md5 parse str_exc count_tests write_page cfg pd tree doc = (Inr r, w))
         \<longleftrightarrow> (\<exists>changed w1. stage_change_detection_io md5 cfg pd tree (init_world doc)
                                 = (Inr changed, w1))
             \<and> (\<exists>u. fst (stage_living_docs count_tests cfg pd tree (init_world doc)) = Inr u)"
proof -
  obtain r1 w1 where s1: "stage_change_detection_io md5 cfg pd tree (init_world doc) = (r1, w1)"
    by (cases "stage_change_detection_io md5 cfg pd tree (init_world doc)")
  show ?thesis
  proof (cases r1)
    case (Inl e)
    with s1 show ?thesis by (simp add: run_io_def)
  next
    case (Inr ch)
    let ?fs = "if ch \<noteq> [] then Some ch else None"
    obtain an w2 where s2: "stage_code_analysis_io parse str_exc cfg pd tree ?fs w1 = (an, w2)"
      by (cases "stage_code_analysis_io parse str_exc cfg pd tree ?fs w1")
    obtain chunks w3 where s3: "stage_rag_indexing an w2 = (chunks, w3)"
      by (cases "stage_rag_indexing an w2")
    obtain r4 w4 where s4: "stage_living_docs count_tests cfg pd tree w3 = (r4, w4)"
      by (cases "stage_living_docs count_tests cfg pd tree w3")
    have l: "fst (stage_living_docs count_tests cfg pd tree (init_world doc)) = r4"
      using living_docs_outcome [of count_tests cfg pd tree "init_world doc" w3] s4 by simp
    show ?thesis
    proof (cases r4)
      case e: (Inl e)
      with s1 Inr s2 s3 s4 l show ?thesis by (simp add: run_io_def)
    next
      case u: (Inr u)
      obtain pages w5 where s5: "stage_site_generation_io write_page an w4 = (Inr pages, w5)"
        using write_pages_ok [of write_page an 1 "site_pages w4 @ [''style.css'', ''index.html'']", OF ok]
        by (simp add: stage_site_generation_io_def)
      with s1 Inr s2 s3 s4 u l show ?thesis by (simp add: run_io_def)
    qed
  qed
qed

lemma parse_never_aborts:
  assumes ok: "\<And>fp its. write_page fp its = None"
  shows "(\<exists>r w. run_io md5 parse str_exc count_tests write_page cfg pd tree doc = (Inr r, w))
         \<longleftrightarrow> (\<exists>r w. run_io md5 parse' str_exc' count_tests write_page cfg pd tree doc = (Inr r, w))"
  unfolding run_io_completes_iff [of write_page, OF ok] ..

section \<open>Parse errors\<close>





section \<open>Only Python files are resolved and analysed\<close>

text \<open>
  Claim C10: of a list of changed files only the entries that end in \<open>.py\<close> count.
  The changed modules and the affected set of \<open>resolve_affected\<close> are those of the
  list without its other entries, and when \<open>stage_code_analysis\<close> is given a non-empty
  list of changed files, every file it analyses is an entry of the list that ends in
  \<open>.py\<close>.
\<close>

theorem only_python_files_seed:
  "changed_modules changed_files = changed_modules (filter (\<lambda>f. endswith f ''.py'') changed_files)
   \<and> resolve_affected dep_graph changed_files
       = resolve_affected dep_graph (filter (\<lambda>f. endswith f ''.py'') changed_files)
   \<and> (changed_files \<noteq> [] \<longrightarrow>
        fst ` set (fst (stage_code_analysis parse cfg pd tree (Some changed_files) p))
          \<subseteq> {f \<in> set changed_files. endswith f ''.py''})"
proof -
  have a: "changed_modules changed_files
           = changed_modules (filter (\<lambda>f. endswith f ''.py'') changed_files)"
    by (simp add: changed_modules_def changed_modules_loop_filter)
  then have b: "resolve_affected dep_graph changed_files
       = resolve_affected dep_graph (filter (\<lambda>f. endswith f ''.py'') changed_files)"
    by (simp add: resolve_affected_def)
  have c: "fst ` set (fst (stage_code_analysis parse cfg pd tree (Some changed_files) p))
          \<subseteq> {f \<in> set changed_files. endswith f ''.py''}" if "changed_files \<noteq> []"
  proof -
    let ?fs = "filter (\<lambda>f. endswith f ''.py'') changed_files"
    have "fst (stage_code_analysis parse cfg pd tree (Some changed_files) p)
          = fst (analyze_files parse cfg pd tree ?fs ([], report_errors p))"
      using that by (simp add: stage_code_analysis_def select_py_files_def split: prod.splits)
    then show ?thesis by (auto simp: analyze_keys)
  qed
  from a b c show ?thesis by blast
qed

theorem only_python_files_seed_witness:
  "[''a.py'', ''README.md''] \<noteq> []
   \<and> changed_modules [''a.py'', ''README.md''] = [''a'']
   \<and> resolve_affected [(''a'', [''b''])] [''a.py'', ''README.md''] = [''a'', ''b'']
   \<and> fst (stage_code_analysis Inr DEFAULT_CONFIG ''/repo''
            [(''a.py'', ''x''), (''README.md'', ''y'')] (Some [''a.py'', ''README.md''])
            (init_pipeline Missing))
       = [(''a.py'', ''x'')]"
  using only_python_files_seed [of "[''a.py'', ''README.md'']" "[(''a'', [''b''])]" Inr
      DEFAULT_CONFIG "''/repo''" "[(''a.py'', ''x''), (''README.md'', ''y'')]" "init_pipeline Missing"]
  by (simp add: eval_defs resolve_affected_def resolve_from_def changed_modules_def
      module_of_def rstrip_def set_add_def dependents_def)

section \<open>Module ids\<close>

text \<open>
  The id of the code is the suffix-aware id whenever the stem of the file ends in a
  character other than \<open>.\<close>, \<open>p\<close>, \<open>y\<close> and the separator.
\<close>

lemma module_of_agrees:
  assumes "stem \<noteq> []" and "last stem \<notin> {CHR ''.'', CHR ''p'', CHR ''y'', os_sep}"
  shows "module_of (stem @ ''.py'') = spec_artifact_id (stem @ ''.py'')"
proof -
  let ?r = "replace_char os_sep CHR ''.'' stem"
  have ne: "?r \<noteq> []" using assms(1) by (simp add: replace_char_def)
  have "last ?r = (if last stem = os_sep then CHR ''.'' else last stem)"
    using assms(1) by (simp add: replace_char_def last_map)
  with assms(2) have l: "last ?r \<notin> set ''.py''" by auto
  have "replace_char os_sep CHR ''.'' (stem @ ''.py'') = ?r @ ''.py''"
    by (simp add: replace_char_def os_sep_def)
  then have "module_of (stem @ ''.py'') = ?r"
    using rstrip_append_keep [OF ne l, of "''.py''"] by (simp add: module_of_def)
  moreover have "spec_artifact_id (stem @ ''.py'') = ?r"
    by (simp add: spec_artifact_id_def endswith_def)
  ultimately show ?thesis by simp
qed

text \<open>
  Claim C7: the id of a Python file is its relative path with the separators replaced by
  dots and the source suffix removed as a suffix. The code removes trailing characters
  instead (\<open>rstrip\<close> takes a set of characters): for \<open>happy.py\<close> it yields \<open>ha\<close>
  where the suffix-aware id is \<open>happy\<close>. \<open>regenerate_docs\<close> maps a module back to its
  file with \<^verbatim>\<open>with_suffix('.py')\<close>, so it looks for \<open>ha.py\<close> and the file is never
  regenerated.
\<close>

theorem module_of_happy:
  "module_of ''happy.py'' = ''ha'' \<and> spec_artifact_id ''happy.py'' = ''happy''"
  by (simp add: module_of_def spec_artifact_id_def rstrip_def replace_char_def os_sep_def
      endswith_def)

section \<open>Ignore patterns\<close>

text \<open>
  The code skips a file exactly when an ignore pattern is a substring of its path. A
  pattern that is a component of the path is a substring of it, so the code skips every
  file that the component test skips.
\<close>

lemma should_skip_iff:
  "should_skip cfg filepath \<longleftrightarrow> (\<exists>p \<in> set (ignore_patterns cfg). sublist p filepath)"
  by (simp add: should_skip_def list_ex_iff str_contains_sublist)

lemma component_skip_should_skip: "component_skip cfg filepath \<Longrightarrow> should_skip cfg filepath"
  by (auto simp: component_skip_def should_skip_def list_ex_iff str_contains_sublist
      intro: parts_sublist)

text \<open>
  Claim C8: an ignore pattern excludes a file if and only if the pattern is a component
  of the path of the file. The code tests for a substring of the path string: with the
  default configuration the file \<open>/repo/.github/ci.md\<close> is skipped, because \<open>.git\<close>
  occurs in \<open>.github\<close>, although no component of the path is an ignore pattern.
\<close>

theorem should_skip_github:
  "should_skip DEFAULT_CONFIG ''/repo/.github/ci.md''
   \<and> \<not> component_skip DEFAULT_CONFIG ''/repo/.github/ci.md''"
  by (simp add: should_skip_def component_skip_def DEFAULT_CONFIG_def parts_def os_sep_def)

section \<open>Loading the store\<close>

text \<open>A store document that does not parse ends every run with the error.\<close>

lemma run_unparseable: "run md5 parse cfg pd tree Unparseable = Inl JSONDecodeError"
  by (simp add: run_def stage_change_detection_def load_cache_def init_pipeline_def)

text \<open>
  Claim C5: loading the store fails soft, a missing or corrupt document gives an empty
  store and the run goes on. A missing document does give the empty store, but a document
  that does not parse raises out of \<open>stage_change_detection\<close>, and the run ends with
  the error before any stage is recorded.
\<close>

theorem run_unparseable_store:
  "load_cache Missing = Inr []
   \<and> run id Inr DEFAULT_CONFIG ''/repo'' [(''a.py'', ''x'')] Unparseable = Inl JSONDecodeError"
  by (simp add: run_def stage_change_detection_def load_cache_def init_pipeline_def)

end
